theory Spec2Isabelle
  imports Main
begin

section \<open>Characters and strings\<close>

text \<open>
  PDFTextExtractor.py works on Python \<open>str\<close> values. Page text is modelled as a list of
  8-bit characters, the character with number \<open>n\<close> standing for the Unicode code point
  \<open>n\<close> (the Latin-1 range). The character classes below are Python's on that range:
  \<open>str.isspace\<close> (which is also \<open>\s\<close> of the \<open>re\<close> module), the decimal digits of \<open>\d\<close>,
  the word characters of \<open>\w\<close> and \<open>\b\<close>, \<open>str.lower\<close> and \<open>str.upper\<close>.
\<close>

definition ord :: "char \<Rightarrow> nat" where
  "ord c = of_char c"

definition is_space :: "char \<Rightarrow> bool" where
  "is_space c = (let n = ord c in (9 \<le> n \<and> n \<le> 13) \<or> (28 \<le> n \<and> n \<le> 32) \<or> n = 133 \<or> n = 160)"

definition is_digit :: "char \<Rightarrow> bool" where
  "is_digit c = (let n = ord c in 48 \<le> n \<and> n \<le> 57)"

definition is_word :: "char \<Rightarrow> bool" where
  "is_word c = (let n = ord c in
     (48 \<le> n \<and> n \<le> 57) \<or> (65 \<le> n \<and> n \<le> 90) \<or> n = 95 \<or> (97 \<le> n \<and> n \<le> 122) \<or>
     n = 170 \<or> n = 178 \<or> n = 179 \<or> n = 181 \<or> n = 185 \<or> n = 186 \<or> (188 \<le> n \<and> n \<le> 190) \<or>
     (192 \<le> n \<and> n \<le> 214) \<or> (216 \<le> n \<and> n \<le> 246) \<or> (248 \<le> n \<and> n \<le> 255))"

definition lower_char :: "char \<Rightarrow> char" where
  "lower_char c = (let n = ord c in
     if (65 \<le> n \<and> n \<le> 90) \<or> (192 \<le> n \<and> n \<le> 214) \<or> (216 \<le> n \<and> n \<le> 222)
     then char_of (n + 32) else c)"

definition lower :: "string \<Rightarrow> string" where
  "lower s = map lower_char s"

text \<open>
  \<open>str.upper\<close> leaves the Latin-1 range at three characters: the sharp s becomes \<open>SS\<close>, the
  micro sign becomes U+039C and y with diaeresis becomes U+0178. Its result is therefore a
  list of code points; \<open>codepoints\<close> reads a string the same way.
\<close>

definition upper_char :: "char \<Rightarrow> nat list" where
  "upper_char c = (let n = ord c in
     if (97 \<le> n \<and> n \<le> 122) \<or> (224 \<le> n \<and> n \<le> 246) \<or> (248 \<le> n \<and> n \<le> 254) then [n - 32]
     else if n = 223 then [83, 83]
     else if n = 181 then [924]
     else if n = 255 then [376]
     else [n])"

definition upper :: "string \<Rightarrow> nat list" where
  "upper s = concat (map upper_char s)"

definition codepoints :: "string \<Rightarrow> nat list" where
  "codepoints s = map ord s"

text \<open>\<open>starts_with xs ys\<close> is \<open>xs.startswith(ys)\<close>; \<open>contains xs ys\<close> is Python's \<open>ys in xs\<close>.\<close>

fun starts_with :: "'a list \<Rightarrow> 'a list \<Rightarrow> bool" where
  "starts_with xs [] = True"
| "starts_with [] (y # ys) = False"
| "starts_with (x # xs) (y # ys) = (x = y \<and> starts_with xs ys)"

fun contains :: "'a list \<Rightarrow> 'a list \<Rightarrow> bool" where
  "contains [] ys = (ys = [])"
| "contains (x # xs) ys = (starts_with (x # xs) ys \<or> contains xs ys)"

definition lstrip :: "string \<Rightarrow> string" where
  "lstrip s = dropWhile is_space s"

definition rstrip :: "string \<Rightarrow> string" where
  "rstrip s = rev (dropWhile is_space (rev s))"

definition strip :: "string \<Rightarrow> string" where
  "strip s = rstrip (lstrip s)"

definition rstrip_chars :: "string \<Rightarrow> string \<Rightarrow> string" where
  "rstrip_chars chars s = rev (dropWhile (\<lambda>c. c \<in> set chars) (rev s))"

text \<open>\<open>split_words [] s\<close> is \<open>s.split()\<close>: the maximal runs of non-whitespace characters.\<close>

fun split_words :: "string \<Rightarrow> string \<Rightarrow> string list" where
  "split_words cur [] = (if cur = [] then [] else [rev cur])"
| "split_words cur (c # cs) =
     (if is_space c then (if cur = [] then split_words [] cs else rev cur # split_words [] cs)
      else split_words (c # cur) cs)"

fun join :: "string \<Rightarrow> string list \<Rightarrow> string" where
  "join sep [] = []"
| "join sep [x] = x"
| "join sep (x # y # ys) = x @ sep @ join sep (y # ys)"

definition replace_char :: "char \<Rightarrow> char \<Rightarrow> string \<Rightarrow> string" where
  "replace_char a b s = map (\<lambda>c. if c = a then b else c) s"

section \<open>Regular expressions\<close>

text \<open>
  The two patterns of the program are values of \<open>regex\<close>, and \<open>re_paths\<close> is the
  backtracking matcher of Python's \<open>re\<close>: from a position it lists every way the pattern can
  match, in the order in which the matcher tries them (a greedy repetition tries one more
  round first, a lazy one tries to stop first, an alternation tries its left side first).
  The match that \<open>re\<close> reports is the first of the list.

  A position is the character before it (for \<open>\b\<close>), the text from it on, and the groups
  captured so far. \<open>Rep greedy lo hi r\<close> is \<open>r{lo,hi}\<close> (\<open>hi = None\<close>: no upper bound); a
  round of a repetition has to consume a character, as every repeated part of the two
  patterns does.
\<close>

datatype regex =
    Eps
  | Cls "char \<Rightarrow> bool"
  | Seq regex regex
  | Alt regex regex
  | Rep bool nat "nat option" regex
  | Group nat regex
  | WordB
  | Eos
  | Look regex

type_synonym mstate = "char option \<times> string \<times> (nat \<times> string) list"

fun rsz :: "regex \<Rightarrow> nat" where
  "rsz (Seq a b) = Suc (rsz a + rsz b)"
| "rsz (Alt a b) = Suc (rsz a + rsz b)"
| "rsz (Rep g lo hi r) = Suc (rsz r)"
| "rsz (Group i r) = Suc (rsz r)"
| "rsz (Look r) = Suc (rsz r)"
| "rsz _ = 0"

definition at_boundary :: "char option \<Rightarrow> string \<Rightarrow> bool" where
  "at_boundary p cs =
     ((case p of None \<Rightarrow> False | Some c \<Rightarrow> is_word c) \<noteq> (case cs of [] \<Rightarrow> False | c # _ \<Rightarrow> is_word c))"

function re_paths :: "regex \<Rightarrow> mstate \<Rightarrow> mstate list" where
  "re_paths Eps st = [st]"
| "re_paths (Cls P) (p, cs, g) =
     (case cs of [] \<Rightarrow> [] | c # cs' \<Rightarrow> if P c then [(Some c, cs', g)] else [])"
| "re_paths (Seq a b) st = concat (map (re_paths b) (re_paths a st))"
| "re_paths (Alt a b) st = re_paths a st @ re_paths b st"
| "re_paths (Rep greedy lo hi r) st =
     (let more = (if hi = Some 0 then []
                  else concat (map (\<lambda>st'. if length (fst (snd st')) < length (fst (snd st))
                                          then re_paths (Rep greedy (lo - 1) (map_option (\<lambda>h. h - 1) hi) r) st'
                                          else [])
                                   (re_paths r st)));
          stop = (if lo = 0 then [st] else [])
      in if greedy then more @ stop else stop @ more)"
| "re_paths (Group i r) (p, cs, g) =
     map (\<lambda>(p', cs', g'). (p', cs', (i, take (length cs - length cs') cs) # g')) (re_paths r (p, cs, g))"
| "re_paths WordB (p, cs, g) = (if at_boundary p cs then [(p, cs, g)] else [])"
| "re_paths Eos (p, cs, g) = (if cs = [] \<or> cs = [CHR 0x0A] then [(p, cs, g)] else [])"
| "re_paths (Look r) st = (if re_paths r st = [] then [] else [st])"
  by pat_completeness auto
termination
  by (relation "inv_image (less_than <*lex*> less_than) (\<lambda>(r, st). (rsz r, length (fst (snd st))))") auto

text \<open>A literal character under \<open>re.I\<close>, a literal string, and a sequence of patterns.\<close>

definition ichr :: "char \<Rightarrow> regex" where
  "ichr c = Cls (\<lambda>x. lower_char x = lower_char c)"

fun lit :: "string \<Rightarrow> regex" where
  "lit [] = Eps"
| "lit (c # cs) = Seq (ichr c) (lit cs)"

fun seqs :: "regex list \<Rightarrow> regex" where
  "seqs [] = Eps"
| "seqs [r] = r"
| "seqs (r # r' # rs) = Seq r (seqs (r' # rs))"

text \<open>
  \<open>re_search\<close> is \<open>pattern.search(text)\<close>: the first match at the leftmost position that has
  one. \<open>re_finditer\<close> is \<open>pattern.finditer(text)\<close>: the matches from left to right, each
  search starting where the match before it ended; a match is reported with the offsets
  of its start and end. (After an empty match the scan moves on by one character; neither
  pattern of the program can match the empty string.)
\<close>

fun re_search :: "regex \<Rightarrow> char option \<Rightarrow> string \<Rightarrow> mstate option" where
  "re_search r p cs =
     (case re_paths r (p, cs, []) of
        st # _ \<Rightarrow> Some st
      | [] \<Rightarrow> (case cs of [] \<Rightarrow> None | c # cs' \<Rightarrow> re_search r (Some c) cs'))"

function re_finditer :: "regex \<Rightarrow> nat \<Rightarrow> char option \<Rightarrow> string \<Rightarrow> (nat \<times> nat \<times> (nat \<times> string) list) list" where
  "re_finditer r k p cs =
     (case re_paths r (p, cs, []) of
        (p', cs', g) # _ \<Rightarrow>
          (k, k + (length cs - length cs'), g) #
          (if length cs' < length cs then re_finditer r (k + (length cs - length cs')) p' cs'
           else (case cs of [] \<Rightarrow> [] | c # cs'' \<Rightarrow> re_finditer r (Suc k) (Some c) cs''))
      | [] \<Rightarrow> (case cs of [] \<Rightarrow> [] | c # cs'' \<Rightarrow> re_finditer r (Suc k) (Some c) cs''))"
  by pat_completeness auto
termination
  by (relation "measure (\<lambda>(r, k, p, cs). length cs)") auto

definition match_group :: "(nat \<times> string) list \<Rightarrow> nat \<Rightarrow> string option" where
  "match_group g i = map_of g i"

section \<open>Settings and patterns\<close>

text \<open>
  The module-level settings of PDFTextExtractor.py and the list \<open>HARDCODED_KEEP\<close> of
  \<open>main\<close> are what a user edits before a run; they are the fields of \<open>config\<close>, and
  \<open>shipped\<close> is the configuration as the file has it.
\<close>

record config =
  DROP_WORDS :: "string list"
  STRICT_CASE_SENSITIVE :: bool
  ENABLE_LOOSE_FALLBACK :: bool
  LOOSE_CASE_INSENSITIVE :: bool
  HARDCODED_KEEP :: "string list"

definition shipped :: config where
  "shipped = \<lparr> DROP_WORDS = [''CONTY'', ''CRES'', ''P2P''], STRICT_CASE_SENSITIVE = True,
               ENABLE_LOOSE_FALLBACK = True, LOOSE_CASE_INSENSITIVE = True, HARDCODED_KEEP = [] \<rparr>"

abbreviation CR :: char where "CR \<equiv> CHR 0x0D"
abbreviation LF :: char where "LF \<equiv> CHR 0x0A"

definition not_newline :: "char \<Rightarrow> bool" where
  "not_newline c = (c \<noteq> CR \<and> c \<noteq> LF)"

text \<open>\<^verbatim>\<open>\b\d+(?:\.\d+)?\s*__\s*([^\r\n]*?)(?:(?:\s{2,})|\bTest\b|$)\<close> with \<open>re.I\<close>\<close>

definition src_prefix :: "regex list" where
  "src_prefix = [WordB, Rep True 1 None (Cls is_digit),
                 Rep True 0 (Some 1) (Seq (lit ''.'') (Rep True 1 None (Cls is_digit))),
                 Rep True 0 None (Cls is_space), lit ''__'', Rep True 0 None (Cls is_space)]"

definition src_stop :: regex where
  "src_stop = Alt (Rep True 2 None (Cls is_space)) (Alt (seqs [WordB, lit ''Test'', WordB]) Eos)"

definition SRC_NAME_RE :: regex where
  "SRC_NAME_RE = seqs (src_prefix @ [Group 1 (Rep False 0 None (Cls not_newline)), src_stop])"

text \<open>\<^verbatim>\<open>Device\s*Test:\s*(\d{1,3}(?:\.\d{1,3}){1,3})\s+([^\r\n]*?)(?=\s{2,}|\r|\n|$)\<close> with \<open>re.I\<close>\<close>

definition tgt_prefix :: "regex list" where
  "tgt_prefix = [lit ''Device'', Rep True 0 None (Cls is_space), lit ''Test:'', Rep True 0 None (Cls is_space),
                 Group 1 (Seq (Rep True 1 (Some 3) (Cls is_digit))
                              (Rep True 1 (Some 3) (Seq (lit ''.'') (Rep True 1 (Some 3) (Cls is_digit))))),
                 Rep True 1 None (Cls is_space)]"

definition tgt_stop :: regex where
  "tgt_stop = Alt (Rep True 2 None (Cls is_space)) (Alt (Cls (\<lambda>c. c = CR)) (Alt (Cls (\<lambda>c. c = LF)) Eos))"

definition TGT_DEVTEST_RE :: regex where
  "TGT_DEVTEST_RE = seqs (tgt_prefix @ [Group 2 (Rep False 0 None (Cls not_newline)), Look tgt_stop])"

section \<open>The program\<close>

text \<open>
  A document is the list of its pages, a page being the text that \<open>get_text("text")\<close>
  returns for it. Soft hyphens are removed by \<open>norm_layout\<close>; the en dash and the em dash
  it also replaces lie outside the 8-bit alphabet of this model.
\<close>

type_synonym document = "string list"

definition norm_layout :: "string \<Rightarrow> string" where
  "norm_layout s = filter (\<lambda>c. c \<noteq> CHR 0xAD) s"

definition norm_loose :: "config \<Rightarrow> string \<Rightarrow> string" where
  "norm_loose cfg s =
     (let s2 = replace_char (CHR ''_'') (CHR '' '') s;
          s3 = strip (join '' '' (split_words [] s2))
      in if LOOSE_CASE_INSENSITIVE cfg then lower s3 else s3)"

text \<open>\<open>.strip().rstrip(":;,-").strip()\<close>, applied to a captured name.\<close>

definition clean_name :: "string \<Rightarrow> string" where
  "clean_name raw = strip (rstrip_chars '':;,-'' (strip raw))"

text \<open>
  The body of the loop of \<open>load_source_names\<close> for one page. A group that took no part in
  a match reads as \<open>None\<close>; group 1 of \<open>SRC_NAME_RE\<close> stands outside every optional part,
  so that branch is never taken (lemma \<open>src_group_set\<close>).
\<close>

definition source_page_names :: "string \<Rightarrow> string list" where
  "source_page_names page =
     (case re_search SRC_NAME_RE None (norm_layout page) of
        None \<Rightarrow> []
      | Some (p, cs, g) \<Rightarrow>
          (case match_group g 1 of
             None \<Rightarrow> []
           | Some raw \<Rightarrow> (let name = clean_name raw in if name \<noteq> [] then [name] else [])))"

fun load_source_names :: "document \<Rightarrow> string list" where
  "load_source_names [] = []"
| "load_source_names (page # doc) = source_page_names page @ load_source_names doc"

text \<open>
  The body of the inner loop of \<open>load_target_tests\<close> for one match: the name it appends, if
  any. \<open>dropped\<close> is the test \<open>any(dw in up for dw in DROP_WORDS)\<close>.
\<close>

definition dropped :: "config \<Rightarrow> string \<Rightarrow> bool" where
  "dropped cfg name = list_ex (\<lambda>dw. contains (upper name) (codepoints dw)) (DROP_WORDS cfg)"

definition occurrence_name :: "config \<Rightarrow> (nat \<times> string) list \<Rightarrow> string list" where
  "occurrence_name cfg g =
     (case match_group g 2 of
        None \<Rightarrow> []
      | Some raw \<Rightarrow>
          (let name = clean_name raw
           in if name = [] then [] else if dropped cfg name then [] else [name]))"

definition target_page_names :: "config \<Rightarrow> string \<Rightarrow> string list" where
  "target_page_names cfg page =
     concat (map (\<lambda>(i, j, g). occurrence_name cfg g) (re_finditer TGT_DEVTEST_RE 0 None (norm_layout page)))"

text \<open>
  \<open>page_to_names\<close> is a \<open>defaultdict(list)\<close>: a page gets a key when its first name is
  appended, so the dictionary lists, in page order, the pages with at least one name.
\<close>

fun load_target_from :: "config \<Rightarrow> nat \<Rightarrow> document \<Rightarrow> (nat \<times> string list) list" where
  "load_target_from cfg i [] = []"
| "load_target_from cfg i (page # doc) =
     (let pno = i + 1; names = target_page_names cfg page
      in (if names = [] then [] else [(pno, names)]) @ load_target_from cfg (i + 1) doc)"

definition load_target_tests :: "config \<Rightarrow> document \<Rightarrow> (nat \<times> string list) list" where
  "load_target_tests cfg doc = load_target_from cfg 0 doc"

section \<open>Matching\<close>

text \<open>
  The lookup tables of \<open>main\<close>. \<open>tgt_loose_map\<close> is a \<open>defaultdict(set)\<close>; only the keys
  that were written exist, so it is a partial map.
\<close>

definition tgt_strict_set :: "config \<Rightarrow> (nat \<times> string list) list \<Rightarrow> string set" where
  "tgt_strict_set cfg tgt_page_map =
     (if STRICT_CASE_SENSITIVE cfg
      then fold (\<lambda>(p, names) acc. fold (\<lambda>n acc. insert n acc) names acc) tgt_page_map {}
      else fold (\<lambda>(p, names) acc. fold (\<lambda>n acc. insert (lower n) acc) names acc) tgt_page_map {})"

definition tgt_loose_map :: "config \<Rightarrow> (nat \<times> string list) list \<Rightarrow> (string \<rightharpoonup> string set)" where
  "tgt_loose_map cfg tgt_page_map =
     (if ENABLE_LOOSE_FALLBACK cfg
      then fold (\<lambda>(p, names) m.
                   fold (\<lambda>n m. m(norm_loose cfg n \<mapsto>
                                   insert n (case m (norm_loose cfg n) of None \<Rightarrow> {} | Some s \<Rightarrow> s)))
                        names m)
                tgt_page_map Map.empty
      else Map.empty)"

record match_state =
  kept_pages :: "nat set"
  strict_cnt :: nat
  loose_cnt :: nat
  none_cnt :: nat

text \<open>The test of line 136, and the loop over the pages around it (lines 135-138, 149-152).\<close>

definition strict_hit :: "config \<Rightarrow> string \<Rightarrow> string list \<Rightarrow> bool" where
  "strict_hit cfg s names =
     (s \<in> set names \<or> (\<not> STRICT_CASE_SENSITIVE cfg \<and> lower s \<in> set (map lower names)))"

definition loose_hit :: "string set \<Rightarrow> string list \<Rightarrow> bool" where
  "loose_hit originals names = (\<exists>orig\<in>originals. orig \<in> set names)"

definition scan_pages :: "(string list \<Rightarrow> bool) \<Rightarrow> (nat \<times> string list) list \<Rightarrow> nat set \<Rightarrow> nat set \<times> bool" where
  "scan_pages hit tgt_page_map kept =
     fold (\<lambda>(p, names) (kept, matched). if hit names then (insert p kept, True) else (kept, matched))
          tgt_page_map (kept, False)"

text \<open>The key of a name for the strict test (line 130): the configured case rule.\<close>

definition strict_key :: "config \<Rightarrow> string \<Rightarrow> string" where
  "strict_key cfg s = (if STRICT_CASE_SENSITIVE cfg then s else lower s)"

text \<open>One round of the loop over the source names (lines 128-157).\<close>

definition match_one :: "config \<Rightarrow> (nat \<times> string list) list \<Rightarrow> string \<Rightarrow> match_state \<Rightarrow> match_state" where
  "match_one cfg tgt_page_map s st =
     (let key = strict_key cfg s;
          (kept1, matched1) =
            (if key \<in> tgt_strict_set cfg tgt_page_map
             then scan_pages (strict_hit cfg s) tgt_page_map (kept_pages st)
             else (kept_pages st, False))
      in if matched1 then st\<lparr>kept_pages := kept1, strict_cnt := strict_cnt st + 1\<rparr>
         else
           (let (kept2, matched2) =
                  (if ENABLE_LOOSE_FALLBACK cfg
                   then (case tgt_loose_map cfg tgt_page_map (norm_loose cfg s) of
                           Some originals \<Rightarrow> scan_pages (loose_hit originals) tgt_page_map kept1
                         | None \<Rightarrow> (kept1, False))
                   else (kept1, False))
            in if matched2 then st\<lparr>kept_pages := kept2, loose_cnt := loose_cnt st + 1\<rparr>
               else st\<lparr>kept_pages := kept2, none_cnt := none_cnt st + 1\<rparr>))"

definition match_all :: "config \<Rightarrow> (nat \<times> string list) list \<Rightarrow> string list \<Rightarrow> match_state" where
  "match_all cfg tgt_page_map src_names =
     fold (match_one cfg tgt_page_map) src_names
          \<lparr>kept_pages = {}, strict_cnt = 0, loose_cnt = 0, none_cnt = 0\<rparr>"

text \<open>The loop over \<open>HARDCODED_KEEP\<close> (lines 165-168).\<close>

definition apply_hardcoded :: "config \<Rightarrow> (nat \<times> string list) list \<Rightarrow> nat set \<Rightarrow> nat set" where
  "apply_hardcoded cfg tgt_page_map kept =
     fold (\<lambda>(p, names) kept.
             fold (\<lambda>n kept. if strip n \<in> set (HARDCODED_KEEP cfg) then insert p kept else kept) names kept)
          tgt_page_map kept"

section \<open>Writing and reporting\<close>

text \<open>
  What the program prints, one constructor per \<open>print\<close>, and the exceptions of the PDF
  library. A file that cannot be opened is \<open>None\<close>; \<open>can_save\<close> says whether \<open>out.save\<close>
  succeeds. What \<open>insert_pdf\<close> does with a page number outside the document is not
  modelled: it is \<open>Page_out_of_range\<close> here.
\<close>

datatype exn = Open_failed | Save_failed | Page_out_of_range

datatype line =
    Extracting_source
  | Source_names_found nat
  | Extracting_target
  | Target_tests_captured nat nat
  | Matching
  | Checking_hardcoded
  | Writing
  | Pages_to_keep nat
  | Wrote
  | No_pages_matched
  | No_pages_to_save
  | Result_header
  | Total_target_pages nat
  | Kept_pages_total nat
  | Source_names_total nat
  | Strict_matches nat
  | Loose_matches nat
  | No_matches nat
  | Error_line exn

fun insert_pages :: "document \<Rightarrow> nat list \<Rightarrow> document \<Rightarrow> document option" where
  "insert_pages src [] out = Some out"
| "insert_pages src (p # ps) out =
     (if 1 \<le> p \<and> p \<le> length src then insert_pages src ps (out @ [src ! (p - 1)]) else None)"

definition write_pdf_pages :: "document option \<Rightarrow> nat list \<Rightarrow> bool \<Rightarrow> line list \<times> (exn + document option)" where
  "write_pdf_pages source_pdf keep_pages_1based can_save =
     (if keep_pages_1based = [] then ([No_pages_to_save], Inr None)
      else (case source_pdf of
              None \<Rightarrow> ([], Inl Open_failed)
            | Some src \<Rightarrow>
                (case insert_pages src keep_pages_1based [] of
                   None \<Rightarrow> ([], Inl Page_out_of_range)
                 | Some out \<Rightarrow> if can_save then ([], Inr (Some out)) else ([], Inl Save_failed))))"

text \<open>The sorted list of the pages to keep (line 170), from the two documents.\<close>

definition final_keep :: "config \<Rightarrow> document \<Rightarrow> document \<Rightarrow> nat list" where
  "final_keep cfg source target =
     (let src_names = filter (\<lambda>s. strip s \<noteq> []) (load_source_names source);
          tgt_page_map = load_target_tests cfg target
      in sorted_list_of_set
           (apply_hardcoded cfg tgt_page_map (kept_pages (match_all cfg tgt_page_map src_names))))"

definition main :: "config \<Rightarrow> document option \<Rightarrow> document option \<Rightarrow> bool \<Rightarrow> line list \<times> (exn + document option)" where
  "main cfg SOURCE_PDF TARGET_PDF can_save =
     (case SOURCE_PDF of
        None \<Rightarrow> ([Extracting_source], Inl Open_failed)
      | Some source \<Rightarrow>
          (let src_names = filter (\<lambda>s. strip s \<noteq> []) (load_source_names source);
               out1 = [Extracting_source, Source_names_found (length src_names), Extracting_target]
           in case TARGET_PDF of
                None \<Rightarrow> (out1, Inl Open_failed)
              | Some target \<Rightarrow>
                  (let tgt_page_map = load_target_tests cfg target;
                       total_tgt_rows = sum_list (map (\<lambda>(p, v). length v) tgt_page_map);
                       st = match_all cfg tgt_page_map src_names;
                       kept = sorted_list_of_set (apply_hardcoded cfg tgt_page_map (kept_pages st));
                       out2 = out1 @ [Target_tests_captured total_tgt_rows (length tgt_page_map), Matching,
                                      Checking_hardcoded, Writing, Pages_to_keep (length kept)];
                       summary = [Result_header, Total_target_pages (length target),
                                  Kept_pages_total (length kept), Source_names_total (length src_names),
                                  Strict_matches (strict_cnt st), Loose_matches (loose_cnt st),
                                  No_matches (none_cnt st)]
                   in if kept \<noteq> []
                      then (case write_pdf_pages TARGET_PDF kept can_save of
                              (out3, Inl e) \<Rightarrow> (out2 @ out3, Inl e)
                            | (out3, Inr saved) \<Rightarrow> (out2 @ out3 @ [Wrote] @ summary, Inr saved))
                      else (out2 @ [No_pages_matched] @ summary, Inr None))))"

text \<open>The \<open>__main__\<close> block: an exception is reported and the exit status is 1.\<close>

record run_result =
  stdout :: "line list"
  out_pdf :: "document option"
  exit_status :: nat

definition run :: "config \<Rightarrow> document option \<Rightarrow> document option \<Rightarrow> bool \<Rightarrow> run_result" where
  "run cfg SOURCE_PDF TARGET_PDF can_save =
     (case main cfg SOURCE_PDF TARGET_PDF can_save of
        (out, Inl e) \<Rightarrow> \<lparr>stdout = out @ [Error_line e], out_pdf = None, exit_status = 1\<rparr>
      | (out, Inr saved) \<Rightarrow> \<lparr>stdout = out, out_pdf = saved, exit_status = 0\<rparr>)"

section \<open>Reading the patterns\<close>

text \<open>
  The character before the position reached after the word \<open>w\<close> has been consumed, when
  \<open>p\<close> was the character before it.
\<close>

definition adv :: "char option \<Rightarrow> string \<Rightarrow> char option" where
  "adv p w = (if w = [] then p else Some (last w))"

text \<open>
  The numbers of rounds that a repetition of a character class may take when \<open>n\<close>
  characters of the class lie ahead, in the order in which the matcher tries them.
\<close>

fun bound :: "nat option \<Rightarrow> nat \<Rightarrow> nat" where
  "bound None n = n"
| "bound (Some h) n = min h n"

definition rounds :: "bool \<Rightarrow> nat \<Rightarrow> nat option \<Rightarrow> nat \<Rightarrow> nat list" where
  "rounds greedy lo hi n = (if greedy then rev [lo..<Suc (bound hi n)] else [lo..<Suc (bound hi n)])"

text \<open>
  A pattern without a capturing group.
\<close>

fun group_free :: "regex \<Rightarrow> bool" where
  "group_free (Group i r) = False"
| "group_free (Seq a b) = (group_free a \<and> group_free b)"
| "group_free (Alt a b) = (group_free a \<and> group_free b)"
| "group_free (Rep gr lo hi r) = group_free r"
| "group_free (Look r) = group_free r"
| "group_free _ = True"

text \<open>
  The matcher at offset \<open>i\<close> of a text: \<open>matches_at\<close> lists the ways the pattern matches
  from there, \<open>search_at\<close> and \<open>finditer_at\<close> are \<open>search\<close> and \<open>finditer\<close> started there.
\<close>

definition matches_at :: "regex \<Rightarrow> string \<Rightarrow> nat \<Rightarrow> mstate list" where
  "matches_at r text i = re_paths r (adv None (take i text), drop i text, [])"


definition search_at :: "regex \<Rightarrow> string \<Rightarrow> nat \<Rightarrow> mstate option" where
  "search_at r text k = re_search r (adv None (take k text)) (drop k text)"

subsection \<open>Where a name ends\<close>

text \<open>
  What lies ahead at the end of a name. \<open>two_spaces\<close>: two characters of white space.
  \<open>word_test\<close>: the word \<open>Test\<close> in any case, between two word boundaries. A source name ends
  before either of them, or at the end of the text (also before a last line feed, as \<open>$\<close>
  reads); a target name ends before two characters of white space, before a line break, or
  at the end of the text.
\<close>

definition two_spaces :: "string \<Rightarrow> bool" where
  "two_spaces cs = (case cs of c # d # _ \<Rightarrow> is_space c \<and> is_space d | _ \<Rightarrow> False)"

definition word_test :: "char option \<Rightarrow> string \<Rightarrow> bool" where
  "word_test p cs = (at_boundary p cs \<and> 4 \<le> length cs \<and> lower (take 4 cs) = ''test'' \<and>
                     at_boundary (adv p (take 4 cs)) (drop 4 cs))"

definition src_name_ends :: "char option \<Rightarrow> string \<Rightarrow> bool" where
  "src_name_ends p cs = (two_spaces cs \<or> word_test p cs \<or> cs = [] \<or> cs = [LF])"


definition starts_ci :: "string \<Rightarrow> string \<Rightarrow> bool" where
  "starts_ci cs s = (length s \<le> length cs \<and> lower (take (length s) cs) = lower s)"

definition src_ends_at :: "string \<Rightarrow> nat \<Rightarrow> bool" where
  "src_ends_at text k = src_name_ends (adv None (take k text)) (drop k text)"


subsection \<open>Headings\<close>

text \<open>
  \<open>eats r S\<close>: every way of matching \<open>r\<close> consumes a word of shape \<open>S\<close> and sets no group.
\<close>

definition eats :: "regex \<Rightarrow> (string \<Rightarrow> bool) \<Rightarrow> bool" where
  "eats r S = (\<forall>p cs g y. y \<in> set (re_paths r (p, cs, g)) \<longrightarrow>
                 (\<exists>w. cs = w @ fst (snd y) \<and> fst y = adv p w \<and> snd (snd y) = g \<and> S w))"




text \<open>
  The text before a source name: digits, optionally a dot and digits, white space, two
  underscores, white space.
\<close>

definition digits :: "string \<Rightarrow> bool" where
  "digits d = (d \<noteq> [] \<and> list_all is_digit d)"

definition src_heading :: "string \<Rightarrow> bool" where
  "src_heading w =
     (\<exists>d opt s1 s2. w = d @ opt @ s1 @ ''__'' @ s2 \<and> digits d \<and>
        (opt = [] \<or> (\<exists>d2. opt = CHR ''.'' # d2 \<and> digits d2)) \<and> list_all is_space (s1 @ s2))"

subsection \<open>Occurrences\<close>


definition src_occurrence :: "string \<Rightarrow> nat \<Rightarrow> nat \<Rightarrow> string \<Rightarrow> bool" where
  "src_occurrence text i e raw =
     (i + length raw \<le> e \<and> e \<le> length text \<and>
      at_boundary (adv None (take i text)) (drop i text) \<and>
      src_heading (take (e - length raw - i) (drop i text)) \<and>
      raw = take (length raw) (drop (e - length raw) text) \<and>
      list_all not_newline raw \<and> src_ends_at text e \<and>
      list_all (\<lambda>k. \<not> src_ends_at text k) [e - length raw..<e])"

section \<open>Words of the specification\<close>







section \<open>The matcher\<close>

lemma scan_pages_fold:
  "fold (\<lambda>(p, names) (kept, matched). if hit names then (insert p kept, True) else (kept, matched)) tgt (k, m)
   = (k \<union> {p. \<exists>names. (p, names) \<in> set tgt \<and> hit names}, m \<or> (\<exists>(p, names)\<in>set tgt. hit names))"
proof (induction tgt arbitrary: k m)
  case Nil
  then show ?case by simp
next
  case (Cons a tgt)
  obtain p names where a: "a = (p, names)" by (cases a)
  show ?case unfolding a by (simp add: Cons.IH) blast
qed

lemma scan_pages_eq:
  "scan_pages hit tgt k = (k \<union> {p. \<exists>names. (p, names) \<in> set tgt \<and> hit names}, \<exists>(p, names)\<in>set tgt. hit names)"
  unfolding scan_pages_def by (simp add: scan_pages_fold)

lemma strict_set_fold_inner:
  "fold (\<lambda>n acc. insert (f n) acc) names A = A \<union> f ` set names"
  by (induction names arbitrary: A) auto

lemma strict_set_fold:
  "fold (\<lambda>(p, names) acc. fold (\<lambda>n acc. insert (f n) acc) names acc) tgt A
   = A \<union> f ` (\<Union>(p, names)\<in>set tgt. set names)"
  by (induction tgt arbitrary: A) (auto simp: strict_set_fold_inner)

lemma tgt_strict_set_eq:
  "tgt_strict_set cfg tgt = strict_key cfg ` (\<Union>(p, names)\<in>set tgt. set names)"
proof (cases "STRICT_CASE_SENSITIVE cfg")
  case True
  have "strict_key cfg = (\<lambda>n. n)" using True by (auto simp: strict_key_def)
  then show ?thesis using True strict_set_fold[of "\<lambda>n. n" tgt "{}"] by (simp add: tgt_strict_set_def)
next
  case False
  have "strict_key cfg = lower" using False by (auto simp: strict_key_def)
  then show ?thesis using False strict_set_fold[of lower tgt "{}"] by (simp add: tgt_strict_set_def)
qed

lemma strict_hit_iff:
  "strict_hit cfg s names \<longleftrightarrow> (\<exists>n\<in>set names. strict_key cfg n = strict_key cfg s)"
proof (cases "STRICT_CASE_SENSITIVE cfg")
  case True
  then show ?thesis by (auto simp: strict_hit_def strict_key_def)
next
  case False
  have "lower s \<in> lower ` set names \<longleftrightarrow> (\<exists>n\<in>set names. lower n = lower s)" by (metis imageE image_eqI)
  moreover have "s \<in> set names \<Longrightarrow> lower s \<in> lower ` set names" by simp
  ultimately show ?thesis using False by (auto simp: strict_hit_def strict_key_def)
qed

lemma strict_key_in_set_iff:
  "strict_key cfg s \<in> tgt_strict_set cfg tgt \<longleftrightarrow> (\<exists>(p, names)\<in>set tgt. strict_hit cfg s names)"
proof
  assume "strict_key cfg s \<in> tgt_strict_set cfg tgt"
  then obtain p names n where "(p, names) \<in> set tgt" "n \<in> set names" "strict_key cfg s = strict_key cfg n"
    unfolding tgt_strict_set_eq by auto
  then have "(p, names) \<in> set tgt \<and> strict_hit cfg s names"
    unfolding strict_hit_iff by (metis)
  then show "\<exists>(p, names)\<in>set tgt. strict_hit cfg s names" by blast
next
  assume "\<exists>(p, names)\<in>set tgt. strict_hit cfg s names"
  then obtain p names n where pn: "(p, names) \<in> set tgt" "n \<in> set names" "strict_key cfg n = strict_key cfg s"
    unfolding strict_hit_iff by auto
  have "n \<in> (\<Union>(p, names)\<in>set tgt. set names)" using pn by blast
  then have "strict_key cfg n \<in> strict_key cfg ` (\<Union>(p, names)\<in>set tgt. set names)" by (rule imageI)
  then show "strict_key cfg s \<in> tgt_strict_set cfg tgt" unfolding tgt_strict_set_eq using pn(3) by simp
qed

lemma match_one_strict:
  assumes "\<exists>(p, names)\<in>set tgt. strict_hit cfg s names"
  shows "match_one cfg tgt s st =
           st\<lparr>kept_pages := kept_pages st \<union> {p. \<exists>names. (p, names) \<in> set tgt \<and> strict_hit cfg s names},
              strict_cnt := strict_cnt st + 1\<rparr>"
  using assms by (simp add: match_one_def strict_key_in_set_iff scan_pages_eq)

lemma match_one_count:
  "strict_cnt (match_one cfg tgt s st) + loose_cnt (match_one cfg tgt s st) + none_cnt (match_one cfg tgt s st)
   = Suc (strict_cnt st + loose_cnt st + none_cnt st)"
  by (simp add: match_one_def Let_def split: prod.splits option.splits)

lemma match_fold_count:
  "strict_cnt (fold (match_one cfg tgt) xs st) + loose_cnt (fold (match_one cfg tgt) xs st) + none_cnt (fold (match_one cfg tgt) xs st)
   = length xs + (strict_cnt st + loose_cnt st + none_cnt st)"
  by (induction xs arbitrary: st) (simp_all add: match_one_count)

lemma match_one_kept_subset:
  "kept_pages (match_one cfg tgt s st) \<subseteq> kept_pages st \<union> fst ` set tgt"
  by (auto simp: match_one_def Let_def scan_pages_eq split: prod.splits option.splits if_splits) force+

lemma match_one_kept_mono:
  "kept_pages st \<subseteq> kept_pages (match_one cfg tgt s st)"
  by (auto simp: match_one_def Let_def scan_pages_eq split: prod.splits option.splits if_splits)

lemma match_fold_kept_subset:
  "kept_pages (fold (match_one cfg tgt) xs st) \<subseteq> kept_pages st \<union> fst ` set tgt"
proof (induction xs arbitrary: st)
  case Nil
  then show ?case by simp
next
  case (Cons x xs)
  show ?case using Cons.IH[of "match_one cfg tgt x st"] match_one_kept_subset[of cfg tgt x st] by auto
qed

lemma match_all_kept_subset: "kept_pages (match_all cfg tgt xs) \<subseteq> fst ` set tgt"
  using match_fold_kept_subset[of cfg tgt xs "\<lparr>kept_pages = {}, strict_cnt = 0, loose_cnt = 0, none_cnt = 0\<rparr>"]
  by (simp add: match_all_def)

lemma hardcoded_inner:
  "fold (\<lambda>n kept. if Q n then insert p kept else kept) names k = (if \<exists>n\<in>set names. Q n then insert p k else k)"
  by (induction names arbitrary: k) auto

lemma apply_hardcoded_fold:
  "fold (\<lambda>(p, names) kept. fold (\<lambda>n kept. if Q n then insert p kept else kept) names kept) tgt k
   = k \<union> {p. \<exists>names. (p, names) \<in> set tgt \<and> (\<exists>n\<in>set names. Q n)}"
  by (induction tgt arbitrary: k) (auto simp: hardcoded_inner split: if_splits)

lemma apply_hardcoded_eq:
  "apply_hardcoded cfg tgt k =
     k \<union> {p. \<exists>names. (p, names) \<in> set tgt \<and> (\<exists>n\<in>set names. strip n \<in> set (HARDCODED_KEEP cfg))}"
  unfolding apply_hardcoded_def by (rule apply_hardcoded_fold)

lemma kept_final_subset:
  "apply_hardcoded cfg tgt (kept_pages (match_all cfg tgt xs)) \<subseteq> fst ` set tgt"
  using match_all_kept_subset[of cfg tgt xs] by (auto simp: apply_hardcoded_eq) force

lemma kept_final_finite:
  "finite (apply_hardcoded cfg tgt (kept_pages (match_all cfg tgt xs)))"
  by (rule finite_subset[OF kept_final_subset]) simp

lemma set_final_keep:
  "set (final_keep cfg source target) =
     apply_hardcoded cfg (load_target_tests cfg target)
       (kept_pages (match_all cfg (load_target_tests cfg target)
          (filter (\<lambda>s. strip s \<noteq> []) (load_source_names source))))"
  by (simp add: final_keep_def Let_def kept_final_finite)

lemma lstrip_fix: "s = [] \<or> \<not> is_space (hd s) \<Longrightarrow> lstrip s = s"
  by (auto simp: lstrip_def dropWhile_eq_self_iff)

lemma rstrip_fix: "s = [] \<or> \<not> is_space (last s) \<Longrightarrow> rstrip s = s"
proof (cases "s = []")
  case True
  then show ?thesis by (simp add: rstrip_def)
next
  case False
  assume "s = [] \<or> \<not> is_space (last s)"
  with False have "\<not> is_space (hd (rev s))" by (simp add: hd_rev)
  then have "dropWhile is_space (rev s) = rev s" by (simp add: dropWhile_eq_self_iff)
  then show ?thesis by (simp add: rstrip_def)
qed

lemma rstrip_last: "rstrip s = [] \<or> \<not> is_space (last (rstrip s))"
proof (cases "dropWhile is_space (rev s) = []")
  case True
  then show ?thesis by (simp add: rstrip_def)
next
  case False
  then have "\<not> is_space (hd (dropWhile is_space (rev s)))" by (rule hd_dropWhile)
  then show ?thesis using False by (simp add: rstrip_def last_rev)
qed

lemma rstrip_prefix: "s = rstrip s @ rev (takeWhile is_space (rev s))"
proof -
  have "rev s = takeWhile is_space (rev s) @ dropWhile is_space (rev s)" by simp
  then have "rev (rev s) = rev (takeWhile is_space (rev s) @ dropWhile is_space (rev s))" by simp
  then show ?thesis unfolding rstrip_def by (simp only: rev_rev_ident rev_append)
qed

lemma rstrip_hd: "rstrip s \<noteq> [] \<Longrightarrow> hd (rstrip s) = hd s"
  using rstrip_prefix[of s] by (metis hd_append2)

lemma strip_ends: "strip s = [] \<or> (\<not> is_space (hd (strip s)) \<and> \<not> is_space (last (strip s)))"
proof (cases "strip s = []")
  case True
  then show ?thesis by simp
next
  case False
  then have ne: "rstrip (lstrip s) \<noteq> []" by (simp add: strip_def)
  then have "lstrip s \<noteq> []" by (auto simp: rstrip_def)
  then have "\<not> is_space (hd (lstrip s))" unfolding lstrip_def by (rule hd_dropWhile)
  then have "\<not> is_space (hd (strip s))" using rstrip_hd[OF ne] by (simp add: strip_def)
  moreover have "\<not> is_space (last (strip s))" using rstrip_last[of "lstrip s"] ne by (simp add: strip_def)
  ultimately show ?thesis by simp
qed

lemma strip_idem: "strip (strip s) = strip s"
proof -
  have "lstrip (strip s) = strip s" using strip_ends[of s] by (intro lstrip_fix) auto
  moreover have "rstrip (strip s) = strip s" using strip_ends[of s] by (intro rstrip_fix) auto
  ultimately show ?thesis by (simp add: strip_def)
qed

lemma strip_clean_name: "strip (clean_name raw) = clean_name raw"
  by (simp add: clean_name_def strip_idem)

lemma occurrence_name_cases:
  "n \<in> set (occurrence_name cfg g) \<Longrightarrow>
     \<exists>raw. match_group g 2 = Some raw \<and> n = clean_name raw \<and> n \<noteq> [] \<and> \<not> dropped cfg n"
proof (cases "match_group g 2")
  case None
  then show "n \<in> set (occurrence_name cfg g) \<Longrightarrow> ?thesis" by (simp add: occurrence_name_def)
next
  case (Some raw)
  then show "n \<in> set (occurrence_name cfg g) \<Longrightarrow> ?thesis"
    by (auto simp: occurrence_name_def Let_def split: if_splits)
qed

lemma target_page_names_cases:
  "n \<in> set (target_page_names cfg page) \<Longrightarrow> \<exists>raw. n = clean_name raw \<and> n \<noteq> [] \<and> \<not> dropped cfg n"
  by (auto simp: target_page_names_def dest!: occurrence_name_cases)

lemma load_target_from_entry:
  "(p, names) \<in> set (load_target_from cfg i doc) \<Longrightarrow>
     i < p \<and> p \<le> i + length doc \<and> names \<noteq> [] \<and> names = target_page_names cfg (doc ! (p - i - 1))"
proof (induction doc arbitrary: i)
  case Nil
  then show ?case by simp
next
  case (Cons page doc)
  show ?case
  proof (cases "(p, names) \<in> set (load_target_from cfg (i + 1) doc)")
    case True
    from Cons.IH[OF True] have "i + 1 < p" "p \<le> i + 1 + length doc" "names \<noteq> []"
      "names = target_page_names cfg (doc ! (p - (i + 1) - 1))" by auto
    moreover have "(page # doc) ! (p - i - 1) = doc ! (p - (i + 1) - 1)"
      using \<open>i + 1 < p\<close> by (cases "p - i - 1") auto
    ultimately show ?thesis by auto
  next
    case False
    with Cons.prems have "p = i + 1" "names = target_page_names cfg page" "names \<noteq> []"
      by (auto simp: Let_def split: if_splits)
    then show ?thesis by simp
  qed
qed

lemma load_target_tests_entry:
  "(p, names) \<in> set (load_target_tests cfg doc) \<Longrightarrow>
     1 \<le> p \<and> p \<le> length doc \<and> names \<noteq> [] \<and> names = target_page_names cfg (doc ! (p - 1))"
  using load_target_from_entry[of p names cfg 0 doc] by (auto simp: load_target_tests_def)

lemma load_target_tests_names:
  assumes "(p, names) \<in> set (load_target_tests cfg doc)" and "n \<in> set names"
  shows "strip n = n \<and> n \<noteq> [] \<and> \<not> dropped cfg n"
proof -
  have "n \<in> set (target_page_names cfg (doc ! (p - 1)))"
    using load_target_tests_entry[OF assms(1)] assms(2) by simp
  then obtain raw where "n = clean_name raw" "n \<noteq> []" "\<not> dropped cfg n"
    using target_page_names_cases by blast
  then show ?thesis by (simp add: strip_clean_name)
qed

lemma final_keep_range: "p \<in> set (final_keep cfg source target) \<Longrightarrow>
    \<exists>names. (p, names) \<in> set (load_target_tests cfg target)"
  using kept_final_subset[of cfg "load_target_tests cfg target"] unfolding set_final_keep by force

lemma insert_pages_ok:
  "\<forall>p\<in>set keep. 1 \<le> p \<and> p \<le> length src \<Longrightarrow>
     insert_pages src keep out = Some (out @ map (\<lambda>p. src ! (p - 1)) keep)"
  by (induction keep arbitrary: out) auto


lemma strict_hit_trimmed:
  assumes "(p, names) \<in> set (load_target_tests cfg target)"
  shows "strict_hit cfg s names \<longleftrightarrow> (\<exists>n\<in>set names. strict_key cfg (strip n) = strict_key cfg s)"
proof -
  have "\<And>n. n \<in> set names \<Longrightarrow> strip n = n" using load_target_tests_names[OF assms] by simp
  then show ?thesis unfolding strict_hit_iff by auto
qed

text \<open>
  C1. On a page of the page index a source name \<open>s\<close> passes the strict test of line 136
  exactly when some entry of the page has a trimmed name equal to \<open>s\<close> under the configured
  case rule (\<open>strict_key\<close>). When some page passes the strict test, the round for \<open>s\<close> adds
  exactly the pages that pass it and counts \<open>s\<close> as strict: the loose and the none counter
  stay as they were, and no page is added for a loose match.
\<close>

theorem strict_match_precedence:
  "((p, names) \<in> set (load_target_tests cfg target) \<longrightarrow>
      (strict_hit cfg s names \<longleftrightarrow> (\<exists>n\<in>set names. strict_key cfg (strip n) = strict_key cfg s))) \<and>
   ((\<exists>(q, ns)\<in>set tgt. strict_hit cfg s ns) \<longrightarrow>
      match_one cfg tgt s st =
        st\<lparr>kept_pages := kept_pages st \<union> {q. \<exists>ns. (q, ns) \<in> set tgt \<and> strict_hit cfg s ns},
           strict_cnt := strict_cnt st + 1\<rparr>)"
  using strict_hit_trimmed[of p names cfg target s] match_one_strict[of tgt cfg s st] by blast

theorem strict_match_precedence_witness:
  "(1, [''Ab'']) \<in> set (load_target_tests shipped [''Device Test: 1.2 Ab'']) \<and>
   strict_hit shipped ''Ab'' [''Ab''] \<and>
   (\<exists>n\<in>set [''Ab'']. strict_key shipped (strip n) = strict_key shipped ''Ab'') \<and>
   match_one shipped [(1, [''Ab'']), (2, [''ab''])] ''Ab''
       \<lparr>kept_pages = {}, strict_cnt = 0, loose_cnt = 0, none_cnt = 0\<rparr>
     = \<lparr>kept_pages = {1}, strict_cnt = 1, loose_cnt = 0, none_cnt = 0\<rparr>"
proof -
  have a: "(1, [''Ab'']) \<in> set (load_target_tests shipped [''Device Test: 1.2 Ab''])" by code_simp
  have b: "strict_hit shipped ''Ab'' [''Ab'']" by (simp add: strict_hit_def)
  have c: "\<exists>(q, ns)\<in>set [(1::nat, [''Ab'']), (2, [''ab''])]. strict_hit shipped ''Ab'' ns"
    by (simp add: strict_hit_def)
  have d: "{q. \<exists>ns. (q, ns) \<in> set [(1::nat, [''Ab'']), (2, [''ab''])] \<and> strict_hit shipped ''Ab'' ns} = {1}"
    by (auto simp: strict_hit_def shipped_def)
  from strict_match_precedence[of 1 "[''Ab'']" shipped "[''Device Test: 1.2 Ab'']" "''Ab''"
         "[(1, [''Ab'']), (2, [''ab''])]" "\<lparr>kept_pages = {}, strict_cnt = 0, loose_cnt = 0, none_cnt = 0\<rparr>"]
       a b c d
  show ?thesis by simp
qed

text \<open>
  C2. After the loop over the source names, for any list of source names and any page
  index, the strict, loose and none counters add up to the number of source names.
\<close>

theorem counters_sum:
  "strict_cnt (match_all cfg tgt src_names) + loose_cnt (match_all cfg tgt src_names)
     + none_cnt (match_all cfg tgt src_names) = length src_names"
  using match_fold_count[of cfg tgt src_names "\<lparr>kept_pages = {}, strict_cnt = 0, loose_cnt = 0, none_cnt = 0\<rparr>"]
  by (simp add: match_all_def)

text \<open>
  C5. For every entry of the page index whose trimmed name is in \<open>HARDCODED_KEEP\<close>, the
  page of the entry is in the final keep list, whatever the source document holds (so also
  when no source name matches the entry).
\<close>

theorem manual_keep_forces_page:
  assumes "(p, names) \<in> set (load_target_tests cfg target)"
      and "n \<in> set names"
      and "strip n \<in> set (HARDCODED_KEEP cfg)"
  shows "p \<in> set (final_keep cfg source target)"
  unfolding set_final_keep apply_hardcoded_eq using assms by blast

theorem manual_keep_forces_page_witness:
  "(1, [''Zz'']) \<in> set (load_target_tests (shipped\<lparr>HARDCODED_KEEP := [''Zz'']\<rparr>) [''Device Test: 1.2 Zz'']) \<and>
   strip ''Zz'' \<in> set (HARDCODED_KEEP (shipped\<lparr>HARDCODED_KEEP := [''Zz'']\<rparr>)) \<and>
   1 \<in> set (final_keep (shipped\<lparr>HARDCODED_KEEP := [''Zz'']\<rparr>) [] [''Device Test: 1.2 Zz''])"
proof -
  have a: "(1, [''Zz'']) \<in> set (load_target_tests (shipped\<lparr>HARDCODED_KEEP := [''Zz'']\<rparr>) [''Device Test: 1.2 Zz''])"
    by code_simp
  have b: "''Zz'' \<in> set [''Zz'']" by simp
  have c: "strip ''Zz'' \<in> set (HARDCODED_KEEP (shipped\<lparr>HARDCODED_KEEP := [''Zz'']\<rparr>))" by code_simp
  from manual_keep_forces_page[OF a b c, of "[]"] a c show ?thesis by simp
qed

lemma final_keep_sorted: "sorted_wrt (<) (final_keep cfg source target)"
  by (simp add: final_keep_def Let_def)

lemma final_keep_in_range:
  assumes "p \<in> set (final_keep cfg source target)"
  shows "1 \<le> p \<and> p \<le> length target"
proof -
  obtain names where "(p, names) \<in> set (load_target_tests cfg target)"
    using final_keep_range[OF assms] by blast
  then show ?thesis using load_target_tests_entry by blast
qed

lemma main_kept:
  "main cfg (Some source) (Some target) can_save =
     (let src_names = filter (\<lambda>s. strip s \<noteq> []) (load_source_names source);
          tgt_page_map = load_target_tests cfg target;
          st = match_all cfg tgt_page_map src_names;
          kept = final_keep cfg source target;
          out2 = [Extracting_source, Source_names_found (length src_names), Extracting_target,
                  Target_tests_captured (sum_list (map (\<lambda>(p, v). length v) tgt_page_map)) (length tgt_page_map),
                  Matching, Checking_hardcoded, Writing, Pages_to_keep (length kept)];
          summary = [Result_header, Total_target_pages (length target),
                     Kept_pages_total (length kept), Source_names_total (length src_names),
                     Strict_matches (strict_cnt st), Loose_matches (loose_cnt st),
                     No_matches (none_cnt st)]
      in if kept \<noteq> []
         then (case write_pdf_pages (Some target) kept can_save of
                 (out3, Inl e) \<Rightarrow> (out2 @ out3, Inl e)
               | (out3, Inr saved) \<Rightarrow> (out2 @ out3 @ [Wrote] @ summary, Inr saved))
         else (out2 @ [No_pages_matched] @ summary, Inr None))"
  by (simp add: main_def final_keep_def Let_def)

lemma write_pdf_pages_ok:
  assumes "keep \<noteq> []" and "\<forall>p\<in>set keep. 1 \<le> p \<and> p \<le> length target"
  shows "write_pdf_pages (Some target) keep True = ([], Inr (Some (map (\<lambda>p. target ! (p - 1)) keep)))"
  using assms by (simp add: write_pdf_pages_def insert_pages_ok)

lemma run_writes_kept:
  assumes "final_keep cfg source target \<noteq> []"
  shows "out_pdf (run cfg (Some source) (Some target) True)
           = Some (map (\<lambda>p. target ! (p - 1)) (final_keep cfg source target))"
proof -
  have "write_pdf_pages (Some target) (final_keep cfg source target) True
          = ([], Inr (Some (map (\<lambda>p. target ! (p - 1)) (final_keep cfg source target))))"
    using assms final_keep_in_range[of _ cfg source target] by (intro write_pdf_pages_ok) auto
  then show ?thesis using assms by (simp add: run_def main_kept Let_def)
qed

text \<open>
  C6. The final keep list is strictly ascending, without repetition, and each of its
  members is a 1-based page number of the target document; when it is not empty (and the
  file can be written), the output document is the list of exactly those pages of the
  target document, in that order.
\<close>

theorem keep_list_ascending_in_range:
  "sorted_wrt (<) (final_keep cfg source target) \<and>
   distinct (final_keep cfg source target) \<and>
   (\<forall>p\<in>set (final_keep cfg source target). 1 \<le> p \<and> p \<le> length target) \<and>
   (final_keep cfg source target \<noteq> [] \<longrightarrow>
      out_pdf (run cfg (Some source) (Some target) True)
        = Some (map (\<lambda>p. target ! (p - 1)) (final_keep cfg source target)))"
  using final_keep_sorted[of cfg source target] final_keep_in_range[of _ cfg source target]
        run_writes_kept[of cfg source target]
  by (auto simp: final_keep_def Let_def)


theorem keep_list_ascending_in_range_witness:
  "final_keep shipped [''1 __ Ab''] [''x'', ''Device Test: 1.2 Ab''] = [2] \<and>
   out_pdf (run shipped (Some [''1 __ Ab'']) (Some [''x'', ''Device Test: 1.2 Ab'']) True)
     = Some [''Device Test: 1.2 Ab'']"
proof -
  have k: "final_keep shipped [''1 __ Ab''] [''x'', ''Device Test: 1.2 Ab''] = [2]" by code_simp
  from keep_list_ascending_in_range[of shipped "[''1 __ Ab'']" "[''x'', ''Device Test: 1.2 Ab'']"] k
  show ?thesis by simp
qed

lemma write_nothing: "write_pdf_pages T [] w = ([No_pages_to_save], Inr None)"
  by (simp add: write_pdf_pages_def)

lemma run_empty_keep:
  assumes "final_keep cfg source target = []"
  shows "out_pdf (run cfg (Some source) (Some target) w) = None"
    and "exit_status (run cfg (Some source) (Some target) w) = 0"
    and "set (stdout (run cfg (Some source) (Some target) w)) \<inter> {Wrote, No_pages_matched} = {No_pages_matched}"
    and "\<forall>e. Error_line e \<notin> set (stdout (run cfg (Some source) (Some target) w))"
    and "Result_header \<in> set (stdout (run cfg (Some source) (Some target) w))"
  using assms by (auto simp: run_def main_kept Let_def)

lemma run_status:
  "exit_status (run cfg S T w) = (if \<exists>e. Error_line e \<in> set (stdout (run cfg S T w)) then 1 else 0)"
proof (cases S)
  case None
  then show ?thesis by (simp add: run_def main_def)
next
  case (Some source)
  note S = this
  show ?thesis
  proof (cases T)
    case None
    then show ?thesis using S by (simp add: run_def main_def Let_def)
  next
    case (Some target)
    show ?thesis
    proof (cases "final_keep cfg source target = []")
      case True
      then show ?thesis unfolding S Some by (simp add: run_def main_kept Let_def)
    next
      case False
      then show ?thesis unfolding S Some
        by (cases "insert_pages target (final_keep cfg source target) []")
           (simp_all add: run_def main_kept Let_def write_pdf_pages_def)
    qed
  qed
qed

text \<open>
  C9. When the final keep list is empty, the run writes no output document, says so
  (\<open>No_pages_matched\<close>, and never \<open>Wrote\<close>), still prints its summary and ends with exit
  status 0 and no error line; \<open>write_pdf_pages\<close> itself writes nothing for an empty list.
  A failed run is told apart by its error line and exit status 1.
\<close>

theorem empty_keep_no_output:
  assumes "final_keep cfg source target = []"
  shows "out_pdf (run cfg (Some source) (Some target) can_save) = None \<and>
         exit_status (run cfg (Some source) (Some target) can_save) = 0 \<and>
         No_pages_matched \<in> set (stdout (run cfg (Some source) (Some target) can_save)) \<and>
         Wrote \<notin> set (stdout (run cfg (Some source) (Some target) can_save)) \<and>
         Result_header \<in> set (stdout (run cfg (Some source) (Some target) can_save)) \<and>
         (\<forall>e. Error_line e \<notin> set (stdout (run cfg (Some source) (Some target) can_save))) \<and>
         write_pdf_pages (Some target) [] can_save = ([No_pages_to_save], Inr None) \<and>
         (\<forall>S T w. exit_status (run cfg S T w) = (if \<exists>e. Error_line e \<in> set (stdout (run cfg S T w)) then 1 else 0))"
  using run_empty_keep[OF assms, of can_save] write_nothing run_status by auto


theorem empty_keep_no_output_witness:
  "final_keep shipped [] [''Device Test: 1.2 Ab''] = [] \<and>
   out_pdf (run shipped (Some []) (Some [''Device Test: 1.2 Ab'']) True) = None \<and>
   exit_status (run shipped (Some []) (Some [''Device Test: 1.2 Ab'']) True) = 0 \<and>
   No_pages_matched \<in> set (stdout (run shipped (Some []) (Some [''Device Test: 1.2 Ab'']) True))"
proof -
  have k: "final_keep shipped [] [''Device Test: 1.2 Ab''] = []" by code_simp
  from empty_keep_no_output[OF k, of True] k show ?thesis by simp
qed

lemma source_page_names_nonempty: "[] \<notin> set (source_page_names page)"
  by (auto simp: source_page_names_def Let_def split: option.splits prod.splits)

lemma load_source_names_nonempty: "[] \<notin> set (load_source_names doc)"
  by (induction doc) (auto simp: source_page_names_nonempty)

lemma source_empty_discarded:
  "re_search SRC_NAME_RE None (norm_layout page) = Some (p, cs, g) \<Longrightarrow> match_group g 1 = Some raw \<Longrightarrow>
     clean_name raw = [] \<Longrightarrow> source_page_names page = []"
  by (simp add: source_page_names_def)

lemma occurrence_empty_discarded:
  "match_group g 2 = Some raw \<Longrightarrow> clean_name raw = [] \<Longrightarrow> occurrence_name cfg g = []"
  by (simp add: occurrence_name_def)

text \<open>
  C10. The empty string is never a source name and never a name of the page index: a source
  page whose captured name is empty after cleaning yields no name, and a target occurrence
  whose captured name is empty after cleaning yields no entry.
\<close>

theorem empty_names_discarded:
  "[] \<notin> set (load_source_names source) \<and>
   (\<forall>(p, names)\<in>set (load_target_tests cfg target). [] \<notin> set names) \<and>
   (re_search SRC_NAME_RE None (norm_layout page) = Some (q, cs, g) \<and> match_group g 1 = Some raw \<and> clean_name raw = []
      \<longrightarrow> source_page_names page = []) \<and>
   (match_group g' 2 = Some raw' \<and> clean_name raw' = [] \<longrightarrow> occurrence_name cfg g' = [])"
proof (intro conjI)
  show "[] \<notin> set (load_source_names source)" by (rule load_source_names_nonempty)
  show "\<forall>(p, names)\<in>set (load_target_tests cfg target). [] \<notin> set names"
    using load_target_tests_names[of _ _ cfg target "[]"] by blast
  show "re_search SRC_NAME_RE None (norm_layout page) = Some (q, cs, g) \<and> match_group g 1 = Some raw \<and> clean_name raw = []
      \<longrightarrow> source_page_names page = []"
    using source_empty_discarded by blast
  show "match_group g' 2 = Some raw' \<and> clean_name raw' = [] \<longrightarrow> occurrence_name cfg g' = []"
    using occurrence_empty_discarded by blast
qed

theorem empty_names_discarded_witness:
  "re_search SRC_NAME_RE None (norm_layout ''1 __ :  x'') = Some (Some CHR '' '', ''x'', [(1, '':'')]) \<and>
   clean_name '':'' = [] \<and>
   source_page_names ''1 __ :  x'' = [] \<and>
   occurrence_name shipped [(2, '':''), (1, ''1.2'')] = [] \<and>
   load_target_tests shipped [''Device Test: 1.2 :'', ''Device Test: 1.2 Ab''] = [(2, [''Ab''])]"
proof -
  have a: "re_search SRC_NAME_RE None (norm_layout ''1 __ :  x'') = Some (Some CHR '' '', ''x'', [(1, '':'')])"
    by code_simp
  have b: "match_group [(1, '':'')] 1 = Some '':''" by (simp add: match_group_def)
  have c: "clean_name '':'' = []" by code_simp
  have d: "match_group [(2, '':''), (1, ''1.2'')] 2 = Some '':''" by (simp add: match_group_def)
  have e: "load_target_tests shipped [''Device Test: 1.2 :'', ''Device Test: 1.2 Ab''] = [(2, [''Ab''])]"
    by code_simp
  from empty_names_discarded[of "[]" shipped "[]" "''1 __ :  x''" "Some CHR '' ''" "''x''" "[(1, '':'')]" "'':''"
         "[(2, '':''), (1, ''1.2'')]" "'':''"] a b c d e
  show ?thesis by simp
qed



lemma dropped_upd: "dropped (cfg\<lparr>DROP_WORDS := ws\<rparr>) n = list_ex (\<lambda>dw. contains (upper n) (codepoints dw)) ws"
  by (simp add: dropped_def)









section \<open>The patterns\<close>

subsection \<open>Repetition and sequence\<close>

declare re_paths.simps(5) [simp del]

lemma adv_Nil [simp]: "adv p [] = p"
  by (simp add: adv_def)

lemma adv_Cons: "adv p (c # w) = adv (Some c) w"
  by (simp add: adv_def)

lemma adv_append: "adv p (u @ v) = adv (adv p u) v"
  by (simp add: adv_def)

lemma adv_take_Suc: "adv p (take (Suc k) (c # cs)) = adv (Some c) (take k cs)"
  by (simp add: adv_Cons)

lemma upt_shift: "0 < b \<Longrightarrow> [lo..<Suc b] = (if lo = 0 then [0] else []) @ map Suc [lo - 1..<b]"
proof (cases lo)
  case 0
  assume "0 < b"
  then have "[0..<Suc b] = 0 # [Suc 0..<Suc b]" by (simp add: upt_rec)
  then show ?thesis using 0 by (simp add: map_Suc_upt)
next
  case (Suc l)
  then show ?thesis by (simp add: map_Suc_upt)
qed

lemma rep_cls_paths:
  "re_paths (Rep greedy lo hi (Cls P)) (p, cs, g) =
     map (\<lambda>k. (adv p (take k cs), drop k cs, g)) (rounds greedy lo hi (length (takeWhile P cs)))"
proof (induction cs arbitrary: p lo hi)
  case Nil
  show ?case by (cases hi) (auto simp: re_paths.simps(5) rounds_def Let_def)
next
  case (Cons c cs)
  show ?case
  proof (cases "P c \<and> hi \<noteq> Some 0")
    case False
    then have "bound hi (length (takeWhile P (c # cs))) = 0" by (cases hi) auto
    then show ?thesis using False by (auto simp: re_paths.simps(5) rounds_def Let_def)
  next
    case True
    define n where "n = length (takeWhile P cs)"
    define hi' where "hi' = map_option (\<lambda>h. h - 1) hi"
    define f where "f = (\<lambda>k. (adv p (take k (c # cs)), drop k (c # cs), g))"
    define f' where "f' = (\<lambda>k. (adv (Some c) (take k cs), drop k cs, g))"
    have b: "bound hi (length (takeWhile P (c # cs))) = Suc (bound hi' n)"
      using True by (cases hi) (auto simp: n_def hi'_def)
    have ff: "f \<circ> Suc = f'" by (auto simp: f_def f'_def adv_Cons fun_eq_iff)
    have f0: "f 0 = (p, c # cs, g)" by (simp add: f_def)
    have more: "re_paths (Rep greedy (lo - 1) hi' (Cls P)) (Some c, cs, g) = map f' (rounds greedy (lo - 1) hi' n)"
      unfolding f'_def n_def by (rule Cons.IH)
    have lhs: "re_paths (Rep greedy lo hi (Cls P)) (p, c # cs, g) =
        (if greedy then map f' (rounds greedy (lo - 1) hi' n) @ (if lo = 0 then [(p, c # cs, g)] else [])
         else (if lo = 0 then [(p, c # cs, g)] else []) @ map f' (rounds greedy (lo - 1) hi' n))"
      using True more by (simp add: re_paths.simps(5) Let_def hi'_def)
    have up: "[lo..<Suc (Suc (bound hi' n))] = (if lo = 0 then [0] else []) @ map Suc [lo - 1..<Suc (bound hi' n)]"
      by (rule upt_shift) simp
    have rhs: "map f (rounds greedy lo hi (length (takeWhile P (c # cs)))) =
        (if greedy then map f' (rounds greedy (lo - 1) hi' n) @ (if lo = 0 then [f 0] else [])
         else (if lo = 0 then [f 0] else []) @ map f' (rounds greedy (lo - 1) hi' n))"
      unfolding rounds_def b up by (simp add: rev_map ff[symmetric] del: upt_Suc)
    show ?thesis unfolding lhs using rhs f0 by (simp add: f_def)
  qed
qed

lemma concat_map_first:
  "concat (map F xs) = y # ys \<Longrightarrow>
     \<exists>pre x post ys'. xs = pre @ x # post \<and> (\<forall>z\<in>set pre. F z = []) \<and> F x = y # ys'"
proof (induction xs)
  case Nil
  then show ?case by simp
next
  case (Cons a xs)
  show ?case
  proof (cases "F a")
    case Nil
    with Cons.prems have "concat (map F xs) = y # ys" by simp
    from Cons.IH[OF this] obtain pre x post ys' where
      "xs = pre @ x # post" "\<forall>z\<in>set pre. F z = []" "F x = y # ys'" by blast
    then have "a # xs = (a # pre) @ x # post \<and> (\<forall>z\<in>set (a # pre). F z = []) \<and> F x = y # ys'"
      using Nil by simp
    then show ?thesis by blast
  next
    case (Cons b bs)
    with Cons.prems have "F a = y # bs" by simp
    then have "a # xs = [] @ a # xs \<and> (\<forall>z\<in>set []. F z = []) \<and> F a = y # bs" by simp
    then show ?thesis by blast
  qed
qed

lemma concat_map_concat_map:
  "concat (map F (concat (map G xs))) = concat (map (\<lambda>x. concat (map F (G x))) xs)"
  by (induction xs) auto

lemma seqs_append:
  "re_paths (seqs (ps @ rs)) st = concat (map (re_paths (seqs rs)) (re_paths (seqs ps) st))"
proof (induction ps arbitrary: st rule: seqs.induct)
  case 1
  then show ?case by simp
next
  case (2 r)
  show ?case
  proof (cases rs)
    case Nil
    have "concat (map (\<lambda>x. [x]) (re_paths r st)) = re_paths r st" by (induction "re_paths r st") auto
    then show ?thesis using Nil by (simp add: comp_def) 
  next
    case (Cons r' rs')
    then show ?thesis by simp
  qed
next
  case (3 r r' rs')
  have "re_paths (seqs ((r # r' # rs') @ rs)) st
        = concat (map (re_paths (seqs ((r' # rs') @ rs))) (re_paths r st))" by simp
  also have "\<dots> = concat (map (\<lambda>x. concat (map (re_paths (seqs rs)) (re_paths (seqs (r' # rs')) x))) (re_paths r st))"
  proof -
    have fe: "re_paths (seqs ((r' # rs') @ rs)) = (\<lambda>x. concat (map (re_paths (seqs rs)) (re_paths (seqs (r' # rs')) x)))"
      by (rule ext) (rule "3.IH")
    show ?thesis by (simp only: fe)
  qed
  also have "\<dots> = concat (map (re_paths (seqs rs)) (concat (map (re_paths (seqs (r' # rs'))) (re_paths r st))))"
    by (rule concat_map_concat_map[symmetric])
  finally show ?case by simp
qed

lemma rep_mem:
  "x \<in> set (re_paths (Rep greedy lo hi r) st) \<Longrightarrow>
     (lo = 0 \<and> x = st) \<or>
     (hi \<noteq> Some 0 \<and> (\<exists>st'\<in>set (re_paths r st).
        length (fst (snd st')) < length (fst (snd st)) \<and>
        x \<in> set (re_paths (Rep greedy (lo - 1) (map_option (\<lambda>h. h - 1) hi) r) st')))"
  apply (subst (asm) re_paths.simps(5))
  apply (auto simp: Let_def split: if_splits)
  done

subsection \<open>Groups and consumed text\<close>

lemma group_free_paths:
  "group_free r \<Longrightarrow> x \<in> set (re_paths r st) \<Longrightarrow> snd (snd x) = snd (snd st)"
proof (induction r st arbitrary: x rule: re_paths.induct)
  case (3 a b st)
  from "3.prems" obtain y where y: "y \<in> set (re_paths a st)" "x \<in> set (re_paths b y)" by auto
  from "3.IH"(1)[OF _ y(1)] "3.prems"(1) have "snd (snd y) = snd (snd st)" by simp
  moreover from "3.IH"(2)[OF y(1) _ y(2)] "3.prems"(1) have "snd (snd x) = snd (snd y)" by simp
  ultimately show ?case by simp
next
  case (5 greedy lo hi r st)
  from rep_mem[OF "5.prems"(2)] have "x = st \<or> (hi \<noteq> Some 0 \<and> (\<exists>st'\<in>set (re_paths r st).
        length (fst (snd st')) < length (fst (snd st)) \<and>
        x \<in> set (re_paths (Rep greedy (lo - 1) (map_option (\<lambda>h. h - 1) hi) r) st')))"
    by blast
  then show ?case
  proof
    assume "x = st" then show ?thesis by simp
  next
    assume "hi \<noteq> Some 0 \<and> (\<exists>st'\<in>set (re_paths r st).
        length (fst (snd st')) < length (fst (snd st)) \<and>
        x \<in> set (re_paths (Rep greedy (lo - 1) (map_option (\<lambda>h. h - 1) hi) r) st'))"
    then obtain st' where s: "hi \<noteq> Some 0" "st' \<in> set (re_paths r st)"
        "length (fst (snd st')) < length (fst (snd st))"
        "x \<in> set (re_paths (Rep greedy (lo - 1) (map_option (\<lambda>h. h - 1) hi) r) st')" by blast
    from "5.IH"(2)[OF s(1) s(2) s(3) _ s(4)] "5.prems"(1) have "snd (snd x) = snd (snd st')" by simp
    moreover from "5.IH"(1)[OF s(1) _ s(2)] "5.prems"(1) have "snd (snd st') = snd (snd st)" by simp
    ultimately show ?thesis by simp
  qed
next
  case (1 st)
  then show ?case by simp
next
  case (2 P p cs g)
  then show ?case by (cases cs) (auto split: if_splits)
next
  case (4 a b st)
  from "4.prems"(2) have "x \<in> set (re_paths a st) \<or> x \<in> set (re_paths b st)" by simp
  then show ?case
  proof
    assume "x \<in> set (re_paths a st)"
    from "4.IH"(1)[OF _ this] "4.prems"(1) show ?thesis by simp
  next
    assume "x \<in> set (re_paths b st)"
    from "4.IH"(2)[OF _ this] "4.prems"(1) show ?thesis by simp
  qed
next
  case (6 i r p cs g)
  then show ?case by simp
next
  case (7 p cs g)
  then show ?case by (simp split: if_splits)
next
  case (8 p cs g)
  then show ?case by (simp split: if_splits)
next
  case (9 r st)
  then show ?case by (simp split: if_splits)
qed


subsection \<open>Search and finditer\<close>

lemma first_index:
  "concat (map G [0..<m]) = y # ys \<Longrightarrow> \<exists>k<m. (\<exists>ys'. G k = y # ys') \<and> (\<forall>j<k. G j = [])"
proof (induction m arbitrary: ys)
  case 0
  then show ?case by simp
next
  case (Suc m)
  then have eq: "concat (map G [0..<m]) @ G m = y # ys" by simp
  show ?case
  proof (cases "concat (map G [0..<m])")
    case Nil
    have "G m = y # ys" using eq unfolding Nil by simp
    moreover from Nil have "\<forall>j<m. G j = []" by auto
    ultimately show ?thesis by blast
  next
    case (Cons z zs)
    with eq have "concat (map G [0..<m]) = y # zs" by simp
    from Suc.IH[OF this] obtain k where "k < m" "\<exists>ys'. G k = y # ys'" "\<forall>j<k. G j = []" by blast
    then show ?thesis using less_Suc_eq by blast
  qed
qed

lemma adv_take_drop:
  assumes "drop k text = c # cs"
  shows "adv None (take (Suc k) text) = Some c" and "drop (Suc k) text = cs" and "k < length text"
proof -
  from assms have k: "k < length text" by (metis drop_all linorder_not_less list.distinct(1))
  then have "take (Suc k) text = take k text @ [text ! k]" by (rule take_Suc_conv_app_nth)
  moreover have "text ! k = c" using assms k by (metis Cons_nth_drop_Suc list.inject)
  ultimately show "adv None (take (Suc k) text) = Some c" by (simp add: adv_def)
  show "drop (Suc k) text = cs" using assms by (metis drop_Suc tl_drop list.sel(3))
  show "k < length text" by (rule k)
qed


lemma search_step:
  "search_at r text k =
     (case matches_at r text k of
        x # _ \<Rightarrow> Some x
      | [] \<Rightarrow> (if k < length text then search_at r text (Suc k) else None))"
proof (cases "drop k text")
  case Nil
  then have "\<not> k < length text" by simp
  then show ?thesis using Nil by (simp add: search_at_def matches_at_def split: list.splits)
next
  case (Cons c cs)
  from adv_take_drop[OF Cons] show ?thesis using Cons
    by (simp add: search_at_def matches_at_def split: list.splits)
qed

lemma search_found:
  "search_at r text k = Some x \<Longrightarrow> k \<le> length text \<Longrightarrow>
     \<exists>i. k \<le> i \<and> i \<le> length text \<and> (\<forall>j. k \<le> j \<and> j < i \<longrightarrow> matches_at r text j = []) \<and>
         (\<exists>xs. matches_at r text i = x # xs)"
proof (induction "length text - k" arbitrary: k)
  case 0
  then have k: "k = length text" by simp
  from "0.prems"(1) obtain xs where "matches_at r text k = x # xs"
    by (subst (asm) search_step) (auto simp: k split: list.splits)
  then show ?case using k by auto
next
  case (Suc n)
  show ?case
  proof (cases "matches_at r text k")
    case Nil
    with Suc.prems(1) Suc.hyps(2) have s: "search_at r text (Suc k) = Some x"
      by (subst (asm) search_step) (auto split: if_splits)
    have "n = length text - Suc k" "Suc k \<le> length text" using Suc.hyps(2) by auto
    from Suc.hyps(1)[OF this(1) s this(2)] obtain i where
      i: "Suc k \<le> i" "i \<le> length text" "\<forall>j. Suc k \<le> j \<and> j < i \<longrightarrow> matches_at r text j = []"
         "\<exists>xs. matches_at r text i = x # xs" by blast
    have "\<forall>j. k \<le> j \<and> j < i \<longrightarrow> matches_at r text j = []"
      using i(3) Nil by (metis Suc_leI le_neq_implies_less)
    then show ?thesis using i by (metis Suc_leD)
  next
    case (Cons y ys)
    with Suc.prems(1) have "x = y" by (subst (asm) search_step) simp
    then show ?thesis using Cons Suc.prems(2) by auto
  qed
qed

lemma search_none:
  "search_at r text k = None \<Longrightarrow> k \<le> j \<Longrightarrow> j \<le> length text \<Longrightarrow> matches_at r text j = []"
proof (induction "length text - k" arbitrary: k)
  case 0
  then have "j = k" by simp
  with "0.prems"(1) show ?case by (subst (asm) search_step) (auto split: list.splits)
next
  case (Suc n)
  from Suc.prems(1) have m: "matches_at r text k = []" and s: "search_at r text (Suc k) = None"
    using Suc.hyps(2) by (subst (asm) search_step, auto split: list.splits if_splits)+
  show ?case
  proof (cases "j = k")
    case True
    then show ?thesis using m by simp
  next
    case False
    have "n = length text - Suc k" using Suc.hyps(2) by simp
    from Suc.hyps(1)[OF this s] False Suc.prems show ?thesis by simp
  qed
qed

declare re_finditer.simps [simp del]





subsection \<open>Ends of names\<close>

lemma lit_paths:
  "re_paths (lit s) (p, cs, g) =
     (if starts_ci cs s then [(adv p (take (length s) cs), drop (length s) cs, g)] else [])"
proof (induction s arbitrary: p cs)
  case Nil
  then show ?case by (simp add: starts_ci_def lower_def)
next
  case (Cons c s)
  show ?case
  proof (cases cs)
    case Nil
    then show ?thesis by (simp add: starts_ci_def ichr_def)
  next
    case (Cons d cs')
    have "starts_ci (d # cs') (c # s) \<longleftrightarrow> lower_char d = lower_char c \<and> starts_ci cs' s"
      by (auto simp: starts_ci_def lower_def)
    then show ?thesis using Cons Cons.IH[of "Some d" cs']
      by (simp add: ichr_def adv_Cons)
  qed
qed

lemma two_spaces_iff: "two_spaces cs \<longleftrightarrow> 2 \<le> length (takeWhile is_space cs)"
proof (cases cs)
  case Nil
  then show ?thesis by (simp add: two_spaces_def)
next
  case (Cons c cs')
  then show ?thesis by (cases cs') (auto simp: two_spaces_def)
qed

lemma rep2_spaces:
  "re_paths (Rep True 2 None (Cls is_space)) (p, cs, g) \<noteq> [] \<longleftrightarrow> two_spaces cs"
  by (auto simp: rep_cls_paths rounds_def two_spaces_iff)


lemma alt_nonempty: "re_paths (Alt a b) st \<noteq> [] \<longleftrightarrow> re_paths a st \<noteq> [] \<or> re_paths b st \<noteq> []"
  by simp

lemma word_paths:
  "re_paths (seqs [WordB, lit s, WordB]) (p, cs, g) \<noteq> [] \<longleftrightarrow>
     at_boundary p cs \<and> starts_ci cs s \<and> at_boundary (adv p (take (length s) cs)) (drop (length s) cs)"
  by (simp add: lit_paths del: lit.simps)

lemma word_test_paths:
  "re_paths (seqs [WordB, lit ''Test'', WordB]) (p, cs, g) \<noteq> [] \<longleftrightarrow> word_test p cs"
proof -
  have l: "lower ''Test'' = ''test''" by code_simp
  have n: "length ''Test'' = 4" by simp
  show ?thesis unfolding word_paths word_test_def starts_ci_def l n by blast
qed

lemma eos_nonempty: "re_paths Eos (p, cs, g) \<noteq> [] \<longleftrightarrow> cs = [] \<or> cs = [LF]"
  by simp

lemma src_stop_iff: "re_paths src_stop (p, cs, g) \<noteq> [] \<longleftrightarrow> src_name_ends p cs"
  unfolding src_stop_def alt_nonempty rep2_spaces word_test_paths eos_nonempty src_name_ends_def by blast

lemma lazy_group_paths:
  "re_paths (Group i (Rep False 0 None (Cls P))) (p, cs, g) =
     map (\<lambda>k. (adv p (take k cs), drop k cs, (i, take k cs) # g)) [0..<Suc (length (takeWhile P cs))]"
proof -
  have "k \<le> length cs \<Longrightarrow> length cs - length (drop k cs) = k" for k by simp
  moreover have "length (takeWhile P cs) \<le> length cs" by (rule length_takeWhile_le)
  ultimately show ?thesis
    by (auto simp: rep_cls_paths rounds_def simp del: upt_Suc)
qed

lemma lazy_group_first:
  assumes "re_paths (Seq (Group i (Rep False 0 None (Cls P))) K) (p, cs, g) = x # xs"
  shows "\<exists>k\<le>length (takeWhile P cs).
           (\<exists>ys. re_paths K (adv p (take k cs), drop k cs, (i, take k cs) # g) = x # ys) \<and>
           (\<forall>j<k. re_paths K (adv p (take j cs), drop j cs, (i, take j cs) # g) = [])"
proof -
  define G where "G = (\<lambda>k. re_paths K (adv p (take k cs), drop k cs, (i, take k cs) # g))"
  have "concat (map G [0..<Suc (length (takeWhile P cs))]) = x # xs"
    using assms unfolding G_def by (simp only: re_paths.simps(3) lazy_group_paths map_map comp_def)
  from first_index[OF this] obtain k where "k < Suc (length (takeWhile P cs))"
    "\<exists>ys'. G k = x # ys'" "\<forall>j<k. G j = []" by blast
  then show ?thesis unfolding G_def by (metis less_Suc_eq_le)
qed

lemma take_takeWhile: "k \<le> length (takeWhile P cs) \<Longrightarrow> list_all P (take k cs)"
proof -
  assume k: "k \<le> length (takeWhile P cs)"
  have "take k cs = take k (takeWhile P cs)"
    by (metis k append_eq_conv_conj takeWhile_dropWhile_id take_append diff_is_0_eq take0 append_Nil2 take_take min.absorb1)
  moreover have "list_all P (takeWhile P cs)" by (simp add: list_all_iff) (metis set_takeWhileD)
  ultimately show ?thesis by (metis list_all_iff in_set_takeD)
qed

subsection \<open>Headings\<close>

lemma eatsD:
  "eats r S \<Longrightarrow> y \<in> set (re_paths r (p, cs, g)) \<Longrightarrow>
     \<exists>w. cs = w @ fst (snd y) \<and> fst y = adv p w \<and> snd (snd y) = g \<and> S w"
  unfolding eats_def by blast

lemma eats_mono: "eats r S \<Longrightarrow> (\<And>w. S w \<Longrightarrow> T w) \<Longrightarrow> eats r T"
  unfolding eats_def by blast

lemma set_rounds: "set (rounds gr lo hi n) = {k. lo \<le> k \<and> k \<le> bound hi n}"
  by (auto simp: rounds_def)

lemma eats_cls_rep:
  "eats (Rep gr lo hi (Cls P)) (\<lambda>w. list_all P w \<and> lo \<le> length w \<and> (case hi of None \<Rightarrow> True | Some h \<Rightarrow> length w \<le> h))"
  unfolding eats_def
proof (intro allI impI)
  fix p cs g y
  assume "y \<in> set (re_paths (Rep gr lo hi (Cls P)) (p, cs, g))"
  then obtain k where k: "lo \<le> k" "k \<le> bound hi (length (takeWhile P cs))"
      and y: "y = (adv p (take k cs), drop k cs, g)"
    by (auto simp: rep_cls_paths set_rounds)
  have kn: "k \<le> length (takeWhile P cs)" using k(2) by (cases hi) auto
  then have kl: "k \<le> length cs" using length_takeWhile_le[of P cs] by simp
  define w where "w = take k cs"
  have "list_all P w" unfolding w_def using kn by (rule take_takeWhile)
  moreover have lw: "length w = k" using kl by (simp add: w_def)
  moreover have "case hi of None \<Rightarrow> True | Some h \<Rightarrow> length w \<le> h" unfolding lw using k(2) by (cases hi) auto
  moreover have "cs = w @ fst (snd y) \<and> fst y = adv p w \<and> snd (snd y) = g" using y by (simp add: w_def)
  ultimately have "cs = w @ fst (snd y) \<and> fst y = adv p w \<and> snd (snd y) = g \<and>
      (list_all P w \<and> lo \<le> length w \<and> (case hi of None \<Rightarrow> True | Some h \<Rightarrow> length w \<le> h))"
    using k(1) by blast
  then show "\<exists>w. cs = w @ fst (snd y) \<and> fst y = adv p w \<and> snd (snd y) = g \<and>
      (list_all P w \<and> lo \<le> length w \<and> (case hi of None \<Rightarrow> True | Some h \<Rightarrow> length w \<le> h))" by blast
qed

lemma eats_lit: "eats (lit s) (\<lambda>w. lower w = lower s)"
  unfolding eats_def
proof (intro allI impI)
  fix p cs g y
  assume "y \<in> set (re_paths (lit s) (p, cs, g))"
  then have c: "starts_ci cs s" and y: "y = (adv p (take (length s) cs), drop (length s) cs, g)"
    by (auto simp: lit_paths split: if_splits)
  have "cs = take (length s) cs @ fst (snd y) \<and> fst y = adv p (take (length s) cs) \<and> snd (snd y) = g \<and>
        lower (take (length s) cs) = lower s" using c y by (simp add: starts_ci_def)
  then show "\<exists>w. cs = w @ fst (snd y) \<and> fst y = adv p w \<and> snd (snd y) = g \<and> lower w = lower s" by blast
qed

lemma eats_wordb: "eats WordB (\<lambda>w. w = [])"
  unfolding eats_def by (auto split: if_splits)

lemma eats_seq:
  assumes "eats a A" and "eats b B"
  shows "eats (Seq a b) (\<lambda>w. \<exists>u v. w = u @ v \<and> A u \<and> B v)"
  unfolding eats_def
proof (intro allI impI)
  fix p cs g y
  assume "y \<in> set (re_paths (Seq a b) (p, cs, g))"
  then obtain z where z: "z \<in> set (re_paths a (p, cs, g))" "y \<in> set (re_paths b z)" by auto
  from eatsD[OF assms(1) z(1)] obtain u where u: "cs = u @ fst (snd z)" "fst z = adv p u" "snd (snd z) = g" "A u"
    by blast
  have "y \<in> set (re_paths b (fst z, fst (snd z), snd (snd z)))" using z(2) by simp
  from eatsD[OF assms(2) this] obtain v where
    v: "fst (snd z) = v @ fst (snd y)" "fst y = adv (fst z) v" "snd (snd y) = snd (snd z)" "B v" by blast
  have "cs = (u @ v) @ fst (snd y) \<and> fst y = adv p (u @ v) \<and> snd (snd y) = g \<and> (\<exists>u' v'. u @ v = u' @ v' \<and> A u' \<and> B v')"
    using u v by (auto simp: adv_append)
  then show "\<exists>w. cs = w @ fst (snd y) \<and> fst y = adv p w \<and> snd (snd y) = g \<and> (\<exists>u v. w = u @ v \<and> A u \<and> B v)"
    by blast
qed

lemma eats_rep:
  assumes "eats r S"
  shows "eats (Rep gr lo (Some h) r) (\<lambda>w. \<exists>ws. w = concat ws \<and> list_all S ws \<and> lo \<le> length ws \<and> length ws \<le> h)"
proof -
  have "y \<in> set (re_paths (Rep gr lo (Some h) r) (p, cs, g)) \<Longrightarrow>
        \<exists>ws. cs = concat ws @ fst (snd y) \<and> fst y = adv p (concat ws) \<and> snd (snd y) = g \<and>
             list_all S ws \<and> lo \<le> length ws \<and> length ws \<le> h" for y p cs g
  proof (induction h arbitrary: lo p cs g)
    case 0
    from rep_mem[OF "0.prems"] have "lo = 0 \<and> y = (p, cs, g)" by auto
    then have "cs = concat [] @ fst (snd y) \<and> fst y = adv p (concat []) \<and> snd (snd y) = g \<and>
             list_all S [] \<and> lo \<le> length ([]::string list) \<and> length ([]::string list) \<le> 0" by simp
    then show ?case by blast
  next
    case (Suc h)
    from rep_mem[OF Suc.prems] consider "lo = 0 \<and> y = (p, cs, g)"
      | st' where "st' \<in> set (re_paths r (p, cs, g))" "y \<in> set (re_paths (Rep gr (lo - 1) (Some h) r) st')"
      by auto
    then show ?case
    proof cases
      case 1
      then have "cs = concat [] @ fst (snd y) \<and> fst y = adv p (concat []) \<and> snd (snd y) = g \<and>
             list_all S [] \<and> lo \<le> length ([]::string list) \<and> length ([]::string list) \<le> Suc h" by simp
      then show ?thesis by blast
    next
      case 2
      from eatsD[OF assms 2(1)] obtain u where
        u: "cs = u @ fst (snd st')" "fst st' = adv p u" "snd (snd st') = g" "S u" by blast
      have "y \<in> set (re_paths (Rep gr (lo - 1) (Some h) r) (fst st', fst (snd st'), snd (snd st')))"
        using 2(2) by simp
      from Suc.IH[OF this] obtain ws where
        ws: "fst (snd st') = concat ws @ fst (snd y)" "fst y = adv (fst st') (concat ws)"
            "snd (snd y) = snd (snd st')" "list_all S ws" "lo - 1 \<le> length ws" "length ws \<le> h" by blast
      have "cs = concat (u # ws) @ fst (snd y) \<and> fst y = adv p (concat (u # ws)) \<and> snd (snd y) = g \<and>
             list_all S (u # ws) \<and> lo \<le> length (u # ws) \<and> length (u # ws) \<le> Suc h"
        using u ws by (auto simp: adv_append)
      then show ?thesis by blast
    qed
  qed
  note main = this
  show ?thesis unfolding eats_def
  proof (intro allI impI)
    fix p cs g y
    assume "y \<in> set (re_paths (Rep gr lo (Some h) r) (p, cs, g))"
    from main[OF this] obtain ws where
      "cs = concat ws @ fst (snd y)" "fst y = adv p (concat ws)" "snd (snd y) = g"
      "list_all S ws" "lo \<le> length ws" "length ws \<le> h" by blast
    then have "cs = concat ws @ fst (snd y) \<and> fst y = adv p (concat ws) \<and> snd (snd y) = g \<and>
        (\<exists>ws'. concat ws = concat ws' \<and> list_all S ws' \<and> lo \<le> length ws' \<and> length ws' \<le> h)" by blast
    then show "\<exists>w. cs = w @ fst (snd y) \<and> fst y = adv p w \<and> snd (snd y) = g \<and>
        (\<exists>ws. w = concat ws \<and> list_all S ws \<and> lo \<le> length ws \<and> length ws \<le> h)" by blast
  qed
qed


lemma lower_char_plain:
  assumes "lower_char x = c" and "\<not> (97 \<le> ord c \<and> ord c \<le> 122)" and "\<not> (224 \<le> ord c \<and> ord c \<le> 254)"
  shows "x = c"
proof (rule ccontr)
  assume ne: "x \<noteq> c"
  define n where "n = ord x"
  from ne assms(1) have up: "(65 \<le> n \<and> n \<le> 90) \<or> (192 \<le> n \<and> n \<le> 214) \<or> (216 \<le> n \<and> n \<le> 222)"
    and c: "c = char_of (n + 32)"
    by (auto simp: lower_char_def Let_def n_def split: if_splits)
  have "ord c = (n + 32) mod 256" unfolding c ord_def by simp
  then have "ord c = n + 32" using up by auto
  then show False using up assms(2,3) by auto
qed

lemma lower_dot: "lower w = lower ''.'' \<Longrightarrow> w = ''.''"
proof -
  assume a: "lower w = lower ''.''"
  have l: "lower ''.'' = ''.''" by code_simp
  from a obtain x where w: "w = [x]" and x: "lower_char x = CHR ''.''" unfolding l by (auto simp: lower_def)
  have "\<not> (97 \<le> ord CHR ''.'' \<and> ord CHR ''.'' \<le> 122)" "\<not> (224 \<le> ord CHR ''.'' \<and> ord CHR ''.'' \<le> 254)"
    by (simp_all add: ord_def)
  from lower_char_plain[OF x this] show ?thesis using w by simp
qed

lemma lower_underscores: "lower w = lower ''__'' \<Longrightarrow> w = ''__''"
proof -
  assume a: "lower w = lower ''__''"
  have l: "lower ''__'' = ''__''" by code_simp
  from a obtain x y where w: "w = [x, y]" and x: "lower_char x = CHR ''_''" "lower_char y = CHR ''_''"
    unfolding l by (auto simp: lower_def)
  have n: "\<not> (97 \<le> ord CHR ''_'' \<and> ord CHR ''_'' \<le> 122)" "\<not> (224 \<le> ord CHR ''_'' \<and> ord CHR ''_'' \<le> 254)"
    by (simp_all add: ord_def)
  from lower_char_plain[OF x(1) n] lower_char_plain[OF x(2) n] show ?thesis using w by simp
qed





lemma eats_dp: "eats (Rep True 1 None (Cls is_digit)) digits"
  by (rule eats_mono[OF eats_cls_rep]) (auto simp: digits_def)

lemma eats_spaces: "eats (Rep True lo None (Cls is_space)) (\<lambda>w. list_all is_space w \<and> lo \<le> length w)"
  by (rule eats_mono[OF eats_cls_rep]) simp




lemma src_prefix_start:
  "y \<in> set (re_paths (seqs src_prefix) (p, cs, g)) \<Longrightarrow> at_boundary p cs"
  by (auto simp: src_prefix_def split: if_splits)

lemma eats_src_prefix: "eats (seqs src_prefix) src_heading"
proof -
  have opt: "eats (Rep True 0 (Some 1) (Seq (lit ''.'') (Rep True 1 None (Cls is_digit))))
               (\<lambda>w. w = [] \<or> (\<exists>d2. w = CHR ''.'' # d2 \<and> digits d2))"
  proof (rule eats_mono[OF eats_rep[OF eats_seq[OF eats_lit eats_dp]]])
    fix w
    assume "\<exists>ws. w = concat ws \<and> list_all (\<lambda>w. \<exists>u v. w = u @ v \<and> lower u = lower ''.'' \<and> digits v) ws \<and>
               0 \<le> length ws \<and> length ws \<le> 1"
    then obtain ws where ws: "w = concat ws" "list_all (\<lambda>w. \<exists>u v. w = u @ v \<and> lower u = lower ''.'' \<and> digits v) ws"
      "length ws \<le> 1" by blast
    show "w = [] \<or> (\<exists>d2. w = CHR ''.'' # d2 \<and> digits d2)"
    proof (cases ws)
      case Nil
      then show ?thesis using ws(1) by simp
    next
      case (Cons x xs)
      then have "xs = []" using ws(3) by simp
      then show ?thesis using ws(1,2) Cons by (auto dest: lower_dot)
    qed
  qed
  show ?thesis unfolding src_prefix_def seqs.simps
  proof (rule eats_mono[OF eats_seq[OF eats_wordb eats_seq[OF eats_dp eats_seq[OF opt
            eats_seq[OF eats_spaces eats_seq[OF eats_lit eats_spaces]]]]]])
    fix w
    assume "\<exists>u v. w = u @ v \<and> u = [] \<and>
       (\<exists>u va. v = u @ va \<and> digits u \<and>
          (\<exists>u v. va = u @ v \<and> (u = [] \<or> (\<exists>d2. u = CHR ''.'' # d2 \<and> digits d2)) \<and>
             (\<exists>u va. v = u @ va \<and> (list_all is_space u \<and> 0 \<le> length u) \<and>
                (\<exists>u v. va = u @ v \<and> lower u = lower ''__'' \<and> list_all is_space v \<and> 0 \<le> length v))))"
    then obtain d r1 where 1: "w = [] @ d @ r1" "digits d" and
      r1: "\<exists>u v. r1 = u @ v \<and> (u = [] \<or> (\<exists>d2. u = CHR ''.'' # d2 \<and> digits d2)) \<and>
             (\<exists>u va. v = u @ va \<and> (list_all is_space u \<and> 0 \<le> length u) \<and>
                (\<exists>u v. va = u @ v \<and> lower u = lower ''__'' \<and> list_all is_space v \<and> 0 \<le> length v))"
      by blast
    from r1 obtain opt r2 where 2: "r1 = opt @ r2" "opt = [] \<or> (\<exists>d2. opt = CHR ''.'' # d2 \<and> digits d2)" and
      r2: "\<exists>u va. r2 = u @ va \<and> (list_all is_space u \<and> 0 \<le> length u) \<and>
                (\<exists>u v. va = u @ v \<and> lower u = lower ''__'' \<and> list_all is_space v \<and> 0 \<le> length v)"
      by blast
    from r2 obtain s1 u s2 where 3: "r2 = s1 @ u @ s2" "list_all is_space s1" "lower u = lower ''__''"
      "list_all is_space s2" by blast
    have "u = ''__''" using 3(3) by (rule lower_underscores)
    then have "w = d @ opt @ s1 @ ''__'' @ s2 \<and> digits d \<and>
        (opt = [] \<or> (\<exists>d2. opt = CHR ''.'' # d2 \<and> digits d2)) \<and> list_all is_space (s1 @ s2)"
      using 1 2 3 by simp
    then show "src_heading w" unfolding src_heading_def by blast
  qed
qed

subsection \<open>First matches\<close>

lemma pattern_first:
  assumes "re_paths (seqs (ps @ [Group i (Rep False 0 None (Cls P)), K])) st = x # xs"
  shows "\<exists>y\<in>set (re_paths (seqs ps) st). \<exists>k\<le>length (takeWhile P (fst (snd y))).
           (\<exists>ys. re_paths K (adv (fst y) (take k (fst (snd y))), drop k (fst (snd y)),
                              (i, take k (fst (snd y))) # snd (snd y)) = x # ys) \<and>
           (\<forall>j<k. re_paths K (adv (fst y) (take j (fst (snd y))), drop j (fst (snd y)),
                              (i, take j (fst (snd y))) # snd (snd y)) = [])"
proof -
  have "seqs [Group i (Rep False 0 None (Cls P)), K] = Seq (Group i (Rep False 0 None (Cls P))) K" by simp
  then have "concat (map (re_paths (Seq (Group i (Rep False 0 None (Cls P))) K)) (re_paths (seqs ps) st)) = x # xs"
    using assms seqs_append[of ps "[Group i (Rep False 0 None (Cls P)), K]" st] by simp
  from concat_map_first[OF this] obtain pre y post ys' where
    y: "re_paths (seqs ps) st = pre @ y # post"
       "re_paths (Seq (Group i (Rep False 0 None (Cls P))) K) y = x # ys'" by blast
  obtain p' cs' g' where yy: "y = (p', cs', g')" by (cases y)
  from lazy_group_first[OF y(2)[unfolded yy]] obtain k where
    "k \<le> length (takeWhile P cs')"
    "\<exists>ys. re_paths K (adv p' (take k cs'), drop k cs', (i, take k cs') # g') = x # ys"
    "\<forall>j<k. re_paths K (adv p' (take j cs'), drop j cs', (i, take j cs') # g') = []" by blast
  moreover have "y \<in> set (re_paths (seqs ps) st)" using y(1) by simp
  ultimately show ?thesis unfolding yy by (intro bexI[of _ "(p', cs', g')"]) auto
qed


lemma after_prefix:
  assumes "drop s text = w @ cs" and "k \<le> length cs" and "s \<le> length text"
  shows "cs = drop (s + length w) text" and "s + length w + k \<le> length text"
    and "take k cs = take k (drop (s + length w) text)"
    and "take (s + length w + k) text = take s text @ w @ take k cs"
    and "drop k cs = drop (s + length w + k) text"
    and "take (length w) (drop s text) = w"
proof -
  have "drop (length w) (drop s text) = cs" using assms(1) by simp
  then show c: "cs = drop (s + length w) text" by (simp add: add.commute)
  have "length w + length cs = length text - s" using assms(1) by (metis length_append length_drop)
  then show "s + length w + k \<le> length text" using assms(2,3) by simp
  show "take k cs = take k (drop (s + length w) text)" using c by simp
  have "take (s + length w + k) text = take s text @ take (length w + k) (drop s text)"
    by (simp add: take_add add.assoc)
  then show "take (s + length w + k) text = take s text @ w @ take k cs" using assms(1) by simp
  show "drop k cs = drop (s + length w + k) text" using c by (simp add: add.commute)
  show "take (length w) (drop s text) = w" using assms(1) by simp
qed

lemma list_all_range: "list_all Q [a..<b] \<longleftrightarrow> (\<forall>k. a \<le> k \<and> k < b \<longrightarrow> Q k)"
  by (auto simp: list_all_iff)


lemma src_first_match:
  assumes m: "matches_at SRC_NAME_RE text i = x # xs" and il: "i \<le> length text"
  shows "\<exists>e raw. match_group (snd (snd x)) 1 = Some raw \<and> src_occurrence text i e raw"
proof -
  let ?st = "(adv None (take i text), drop i text, [])"
  from m have "re_paths (seqs (src_prefix @ [Group 1 (Rep False 0 None (Cls not_newline)), src_stop])) ?st = x # xs"
    by (simp add: matches_at_def SRC_NAME_RE_def)
  from pattern_first[OF this] obtain y k where
    y: "y \<in> set (re_paths (seqs src_prefix) ?st)" and
    k: "k \<le> length (takeWhile not_newline (fst (snd y)))" and
    hit: "\<exists>ys. re_paths src_stop (adv (fst y) (take k (fst (snd y))), drop k (fst (snd y)),
                              (1, take k (fst (snd y))) # snd (snd y)) = x # ys" and
    miss: "\<forall>j<k. re_paths src_stop (adv (fst y) (take j (fst (snd y))), drop j (fst (snd y)),
                              (1, take j (fst (snd y))) # snd (snd y)) = []" by blast
  define cs where "cs = fst (snd y)"
  define raw where "raw = take k cs"
  have kl: "k \<le> length cs" using k length_takeWhile_le[of not_newline cs] by (simp add: cs_def)
  have lr: "length raw = k" using kl by (simp add: raw_def)
  from eatsD[OF eats_src_prefix y] obtain w where
    w: "drop i text = w @ cs" "fst y = adv (adv None (take i text)) w" "src_heading w" by (auto simp: cs_def)
  have bd: "at_boundary (adv None (take i text)) (drop i text)" using y by (rule src_prefix_start)
  note ap = after_prefix[OF w(1) _ il]
  define e where "e = i + length w + k"
  have el: "e - length raw = i + length w" using lr by (simp add: e_def)
  have pv: "adv (fst y) (take j cs) = adv None (take (i + length w + j) text)" if "j \<le> length cs" for j
    using ap(4)[OF that] w(2) by (simp add: adv_append)
  have gf: "group_free src_stop" by (simp add: src_stop_def ichr_def)
  from hit obtain ys where h: "re_paths src_stop (adv (fst y) raw, drop k cs, (1, raw) # snd (snd y)) = x # ys"
    unfolding cs_def raw_def by blast
  then have "x \<in> set (re_paths src_stop (adv (fst y) raw, drop k cs, (1, raw) # snd (snd y)))" by simp
  from group_free_paths[OF gf this] have g: "snd (snd x) = (1, raw) # snd (snd y)" by simp
  have 1: "i + length raw \<le> e \<and> e \<le> length text" using ap(2)[OF kl] lr by (simp add: e_def)
  have 2: "src_heading (take (e - length raw - i) (drop i text))" using el ap(6)[OF kl] w(3) by simp
  have 3: "raw = take (length raw) (drop (e - length raw) text)" using el lr ap(1)[OF kl] by (simp add: raw_def)
  have 4: "list_all not_newline raw" unfolding raw_def using k by (intro take_takeWhile) (simp add: cs_def)
  have "re_paths src_stop (adv (fst y) raw, drop k cs, (1, raw) # snd (snd y)) \<noteq> []" using h by simp
  then have "src_name_ends (adv (fst y) (take k cs)) (drop k cs)" unfolding src_stop_iff raw_def .
  then have 5: "src_ends_at text e" unfolding src_ends_at_def e_def pv[OF kl] ap(5)[OF kl] .
  have 6: "list_all (\<lambda>k. \<not> src_ends_at text k) [e - length raw..<e]"
    unfolding list_all_range
  proof (intro allI impI)
    fix q assume q: "e - length raw \<le> q \<and> q < e"
    define j where "j = q - (i + length w)"
    have j: "j < k" "q = i + length w + j" using q el by (auto simp: j_def e_def)
    then have jl: "j \<le> length cs" using kl by simp
    from miss j(1) have "re_paths src_stop (adv (fst y) (take j cs), drop j cs, (1, take j cs) # snd (snd y)) = []"
      unfolding cs_def by blast
    then have "\<not> src_name_ends (adv (fst y) (take j cs)) (drop j cs)" using src_stop_iff by metis
    then show "\<not> src_ends_at text q" unfolding src_ends_at_def j(2) pv[OF jl] ap(5)[OF jl] .
  qed
  have "match_group (snd (snd x)) 1 = Some raw" by (simp add: g match_group_def)
  then show ?thesis using bd 1 2 3 4 5 6 unfolding src_occurrence_def by blast
qed

section \<open>Extraction\<close>

lemma search_at_0: "search_at r text 0 = re_search r None text"
  by (simp add: search_at_def)








lemma src_group_set:
  assumes "re_search SRC_NAME_RE None t = Some x"
  shows "\<exists>raw. match_group (snd (snd x)) 1 = Some raw"
proof -
  from assms have "search_at SRC_NAME_RE t 0 = Some x" by (simp add: search_at_0)
  from search_found[OF this] obtain i xs where
    i: "i \<le> length t" "matches_at SRC_NAME_RE t i = x # xs" by auto
  from src_first_match[OF i(2) i(1)] show ?thesis by blast
qed







end
